theory Spec2Isabelle
  imports Main "HOL-Library.Word"
begin

section \<open>Partition recovery on the recovery master\<close>

text \<open>
  The embedding follows \<^verbatim>\<open>MasterService::recover\<close> (the helper that fetches and replays
  the recovery segments) and \<^verbatim>\<open>MasterService::detectSegmentRecoveryFailure\<close>.
  Server ids and segment ids are 64-bit unsigned integers.
\<close>

type_synonym u64 = "64 word"

text \<open>\<^verbatim>\<open>MasterService::Replica::State\<close>.\<close>

datatype State = NOT_STARTED | WAITING | OK | FAILED

text \<open>\<^verbatim>\<open>MasterService::Replica\<close>: one row of the scoreboard.\<close>

record Replica =
  backupId :: u64
  segmentId :: u64
  state :: State

text \<open>
  The Recover RPC handler builds each replica with the constructor's default state:
  \<^verbatim>\<open>Replica replica(replicaLocation->backupId, replicaLocation->segmentId)\<close>.
\<close>

definition mkReplica :: "u64 \<times> u64 \<Rightarrow> Replica" where
  "mkReplica w = \<lparr>backupId = fst w, segmentId = snd w, state = NOT_STARTED\<rparr>"

definition mkReplicas :: "(u64 \<times> u64) list \<Rightarrow> Replica list" where
  "mkReplicas ws = map mkReplica ws"

text \<open>
  What happens when a ready GetRecoveryData RPC is waited for and its segment is checked
  and replayed: either the body of the \<^verbatim>\<open>try\<close> block runs to its end (the segment is
  replayed), or one of the three exceptions the loop catches is thrown, by the wait for
  the RPC or by the check of the segment, before the replay.
\<close>

datatype GrdResult =
  Replayed | SegmentIteratorException | ServerNotUpException | ClientException

text \<open>
  The local variables of \<^verbatim>\<open>recover\<close>. A task slot (\<^verbatim>\<open>Tub<RecoveryTask> tasks[4]\<close>) is
  either empty or holds a task, which refers to its replica: the index of the replica in
  the list. The iterator \<^verbatim>\<open>notStarted\<close> is an index into the list, \<^verbatim>\<open>replicasEnd\<close> is the
  length of the list. \<^verbatim>\<open>replayed\<close> records the calls of
  \<^verbatim>\<open>objectManager.replaySegment\<close>, by segment id, in the order they are made.
\<close>

record Recovery =
  replicas :: "Replica list"
  runningSet :: "u64 set"
  tasks :: "nat option list"
  activeRequests :: "32 word"
  notStarted :: nat
  replayed :: "u64 list"

definition initRecovery :: "Replica list \<Rightarrow> Recovery" where
  "initRecovery rs =
     \<lparr>replicas = rs, runningSet = {}, tasks = [None, None, None, None],
      activeRequests = 0, notStarted = 0, replayed = []\<rparr>"

text \<open>
  \<^verbatim>\<open>task.construct(context, recoveryId, masterId, partitionId, replica);
  replica.state = Replica::State::WAITING; runningSet.insert(replica.segmentId);\<close>
\<close>

definition startTask :: "nat \<Rightarrow> nat \<Rightarrow> Recovery \<Rightarrow> Recovery" where
  "startTask k i s =
     s\<lparr>tasks := (tasks s)[k := Some i],
       replicas := (replicas s)[i := (replicas s ! i)\<lparr>state := WAITING\<rparr>],
       runningSet := insert (segmentId (replicas s ! i)) (runningSet s)\<rparr>"

text \<open>
  \<^verbatim>\<open>while (replicaIt != replicasEnd && contains(runningSet, replicaIt->segmentId))
      ++replicaIt;\<close>
\<close>

function skipRunning :: "Replica list \<Rightarrow> u64 set \<Rightarrow> nat \<Rightarrow> nat" where
  "skipRunning rs run i =
     (if i < length rs \<and> segmentId (rs ! i) \<in> run then skipRunning rs run (Suc i) else i)"
  by pat_completeness auto
termination
  by (relation "measure (\<lambda>(rs, run, i). length rs - i)") auto

declare skipRunning.simps [simp del]

text \<open>
  The initial round of RPCs. Every slot is empty when the loop over the slots reaches it
  and is filled by one iteration of \<^verbatim>\<open>while (!task)\<close>, unless the replicas have run out
  (\<^verbatim>\<open>goto doneStartingInitialTasks\<close>). The first argument lists the slots still to visit,
  the second is \<^verbatim>\<open>replicaIt\<close>.
\<close>

fun startInitialTasks :: "nat list \<Rightarrow> nat \<Rightarrow> Recovery \<Rightarrow> Recovery" where
  "startInitialTasks [] it s = s"
| "startInitialTasks (k # ks) it s =
     (if tasks s ! k \<noteq> None then startInitialTasks ks it s
      else if it = length (replicas s) then s
      else
        let s' = (startTask k it s)\<lparr>activeRequests := activeRequests s + 1\<rparr>
        in startInitialTasks ks (skipRunning (replicas s') (runningSet s') (Suc it)) s')"

text \<open>
  The body of the \<^verbatim>\<open>try\<close> block and its three handlers, for the task in slot \<open>k\<close> that
  refers to replica \<open>i\<close>, followed by \<^verbatim>\<open>task.destroy()\<close>. On success the segment is
  replayed, the replica is marked OK, and so is every entry of \<^verbatim>\<open>segmentIdToBackups\<close>
  for its segment id: that multimap holds every replica of the list under its segment id.
\<close>

definition finishTask :: "(nat \<Rightarrow> GrdResult) \<Rightarrow> nat \<Rightarrow> nat \<Rightarrow> Recovery \<Rightarrow> Recovery" where
  "finishTask grd k i s =
     (let seg = segmentId (replicas s ! i) in
      (case grd i of
         Replayed \<Rightarrow>
           s\<lparr>replayed := replayed s @ [seg],
             runningSet := runningSet s - {seg},
             replicas :=
               map (\<lambda>r. if segmentId r = seg then r\<lparr>state := OK\<rparr> else r)
                 ((replicas s)[i := (replicas s ! i)\<lparr>state := OK\<rparr>])\<rparr>
       | SegmentIteratorException \<Rightarrow>
           s\<lparr>replicas := (replicas s)[i := (replicas s ! i)\<lparr>state := FAILED\<rparr>],
             runningSet := runningSet s - {seg}\<rparr>
       | ServerNotUpException \<Rightarrow>
           s\<lparr>replicas := (replicas s)[i := (replicas s ! i)\<lparr>state := FAILED\<rparr>],
             runningSet := runningSet s - {seg}\<rparr>
       | ClientException \<Rightarrow>
           s\<lparr>replicas := (replicas s)[i := (replicas s ! i)\<lparr>state := FAILED\<rparr>],
             runningSet := runningSet s - {seg}\<rparr>)
      \<lparr>tasks := (tasks s)[k := None]\<rparr>)"

text \<open>
  \<^verbatim>\<open>while (notStarted != replicasEnd && notStarted->state != Replica::State::NOT_STARTED)
      ++notStarted;\<close>
\<close>

function advanceNotStarted :: "Replica list \<Rightarrow> nat \<Rightarrow> nat" where
  "advanceNotStarted rs i =
     (if i < length rs \<and> state (rs ! i) \<noteq> NOT_STARTED then advanceNotStarted rs (Suc i)
      else i)"
  by pat_completeness auto
termination
  by (relation "measure (\<lambda>(rs, i). length rs - i)") auto

declare advanceNotStarted.simps [simp del]

text \<open>
  The search for the next replica to request: from \<^verbatim>\<open>replicaIt\<close> on, the first entry that
  is NOT_STARTED and whose segment id is not in \<^verbatim>\<open>runningSet\<close>; \<open>None\<close> is
  \<^verbatim>\<open>goto outOfHosts\<close> (or the outer loop ending at \<^verbatim>\<open>replicasEnd\<close>).
\<close>

function findCandidate :: "Replica list \<Rightarrow> u64 set \<Rightarrow> nat \<Rightarrow> nat option" where
  "findCandidate rs run i =
     (if i < length rs then
        (if state (rs ! i) \<noteq> NOT_STARTED \<or> segmentId (rs ! i) \<in> run
         then findCandidate rs run (Suc i)
         else Some i)
      else None)"
  by pat_completeness auto
termination
  by (relation "measure (\<lambda>(rs, run, i). length rs - i)") auto

declare findCandidate.simps [simp del]

text \<open>
  After a task has been destroyed: move \<^verbatim>\<open>notStarted\<close> up, start the next request in the
  same slot if there is a candidate, and otherwise give the slot up
  (\<^verbatim>\<open>if (!task) --activeRequests;\<close>).
\<close>

definition startNext :: "nat \<Rightarrow> Recovery \<Rightarrow> Recovery" where
  "startNext k s =
     (let s' = s\<lparr>notStarted := advanceNotStarted (replicas s) (notStarted s)\<rparr> in
      case findCandidate (replicas s') (runningSet s') (notStarted s') of
        None \<Rightarrow> s'\<lparr>activeRequests := activeRequests s' - 1\<rparr>
      | Some j \<Rightarrow> startTask k j s')"

text \<open>
  One iteration of \<^verbatim>\<open>foreach (auto& task, tasks)\<close> in the event loop, for slot \<open>k\<close>;
  \<open>ready\<close> is what \<^verbatim>\<open>task->rpc->isReady()\<close> returns at this poll.
\<close>

definition pollTask :: "(nat \<Rightarrow> GrdResult) \<Rightarrow> bool \<Rightarrow> nat \<Rightarrow> Recovery \<Rightarrow> Recovery" where
  "pollTask grd ready k s =
     (case tasks s ! k of
        None \<Rightarrow> s
      | Some i \<Rightarrow> if \<not> ready then s else startNext k (finishTask grd k i s))"

text \<open>One pass over the four slots; \<open>ready k\<close> is the answer of slot \<open>k\<close>'s RPC.\<close>

definition pollTasks :: "(nat \<Rightarrow> GrdResult) \<Rightarrow> (nat \<Rightarrow> bool) \<Rightarrow> Recovery \<Rightarrow> Recovery" where
  "pollTasks grd ready s =
     pollTask grd (ready 3) 3 (pollTask grd (ready 2) 2
       (pollTask grd (ready 1) 1 (pollTask grd (ready 0) 0 s)))"

text \<open>
  \<^verbatim>\<open>while (activeRequests) { ... }\<close>. Which RPCs are ready at each pass is not decided by
  the program: the schedule lists, pass by pass, the answers of \<^verbatim>\<open>isReady()\<close>. Once the
  schedule is used up every outstanding RPC is ready, which is how an RPC that has
  completed or timed out answers. The loop has no bound of its own, so its model is
  partial: \<open>None\<close> would be a loop that runs forever.
\<close>

partial_function (option) eventLoop ::
  "(nat \<Rightarrow> GrdResult) \<Rightarrow> (nat \<Rightarrow> bool) list \<Rightarrow> Recovery \<Rightarrow> Recovery option" where
  "eventLoop grd sched s =
     (if activeRequests s = 0 then Some s
      else case sched of
        [] \<Rightarrow> eventLoop grd [] (pollTasks grd (\<lambda>k. True) s)
      | ready # rest \<Rightarrow> eventLoop grd rest (pollTasks grd ready s))"

declare eventLoop.simps [code]

text \<open>\<^verbatim>\<open>MasterService::detectSegmentRecoveryFailure\<close>; \<^verbatim>\<open>assert(false)\<close> is an error.\<close>

datatype RecoveryError = AssertionFailed | SegmentRecoveryFailedException

fun detectFailures :: "Replica list \<Rightarrow> u64 set \<Rightarrow> RecoveryError + u64 set" where
  "detectFailures [] failures = Inr failures"
| "detectFailures (r # rs) failures =
     (case state r of
        OK \<Rightarrow> detectFailures rs (failures - {segmentId r})
      | FAILED \<Rightarrow> detectFailures rs (insert (segmentId r) failures)
      | WAITING \<Rightarrow> Inl AssertionFailed
      | NOT_STARTED \<Rightarrow> Inl AssertionFailed)"

definition detectSegmentRecoveryFailure :: "Replica list \<Rightarrow> RecoveryError + unit" where
  "detectSegmentRecoveryFailure rs =
     (case detectFailures rs {} of
        Inl e \<Rightarrow> Inl e
      | Inr failures \<Rightarrow>
          if failures \<noteq> {} then Inl SegmentRecoveryFailedException else Inr ())"

text \<open>
  The helper \<^verbatim>\<open>recover\<close> as a whole: the initial round, the event loop, the check, and
  then the commit of the side log. \<open>None\<close>: the event loop does not return;
  \<open>Some (Inl e)\<close>: it throws; \<open>Some (Inr s)\<close>: it returns, with \<open>s\<close> the final scoreboard.
\<close>

definition recover ::
  "(nat \<Rightarrow> GrdResult) \<Rightarrow> (nat \<Rightarrow> bool) list \<Rightarrow> Replica list \<Rightarrow> (RecoveryError + Recovery) option"
  where
  "recover grd sched rs =
     (case eventLoop grd sched (startInitialTasks [0, 1, 2, 3] 0 (initRecovery rs)) of
        None \<Rightarrow> None
      | Some s \<Rightarrow>
          (case detectSegmentRecoveryFailure (replicas s) of
             Inl e \<Rightarrow> Some (Inl e)
           | Inr u \<Rightarrow> Some (Inr s)))"

subsection \<open>Invariants of the scoreboard\<close>

text \<open>
  Every task refers to a replica of the list that is WAITING, no two slots hold the same
  replica, and every WAITING replica is held by a slot.
\<close>

definition slotsOK :: "Recovery \<Rightarrow> bool" where
  "slotsOK s \<longleftrightarrow>
     length (tasks s) = 4 \<and>
     (\<forall>k<4. \<forall>i. tasks s ! k = Some i \<longrightarrow>
        i < length (replicas s) \<and> state (replicas s ! i) = WAITING) \<and>
     (\<forall>k<4. \<forall>k'<4. \<forall>i. tasks s ! k = Some i \<longrightarrow> tasks s ! k' = Some i \<longrightarrow> k = k') \<and>
     (\<forall>i<length (replicas s). state (replicas s ! i) = WAITING \<longrightarrow>
        (\<exists>k<4. tasks s ! k = Some i))"

text \<open>No two WAITING replicas have the same segment id.\<close>

definition waitingDistinct :: "Replica list \<Rightarrow> bool" where
  "waitingDistinct rs \<longleftrightarrow>
     (\<forall>i<length rs. \<forall>j<length rs.
        state (rs ! i) = WAITING \<longrightarrow> state (rs ! j) = WAITING \<longrightarrow>
        segmentId (rs ! i) = segmentId (rs ! j) \<longrightarrow> i = j)"

text \<open>\<^verbatim>\<open>runningSet\<close> holds the segment ids of the WAITING replicas.\<close>

definition runningOK :: "Recovery \<Rightarrow> bool" where
  "runningOK s \<longleftrightarrow>
     runningSet s =
       {seg. \<exists>i<length (replicas s). state (replicas s ! i) = WAITING \<and>
               segmentId (replicas s ! i) = seg}"

text \<open>The number of occupied slots, and \<^verbatim>\<open>activeRequests\<close> counting them.\<close>

definition occupied :: "nat option list \<Rightarrow> nat" where
  "occupied ts = length (filter (\<lambda>t. t \<noteq> None) ts)"

definition activeOK :: "Recovery \<Rightarrow> bool" where
  "activeOK s \<longleftrightarrow> unat (activeRequests s) = occupied (tasks s)"

text \<open>Everything before \<^verbatim>\<open>notStarted\<close> has been started.\<close>

definition cursorOK :: "Recovery \<Rightarrow> bool" where
  "cursorOK s \<longleftrightarrow>
     notStarted s \<le> length (replicas s) \<and>
     (\<forall>i<notStarted s. state (replicas s ! i) \<noteq> NOT_STARTED)"

text \<open>Once one replica of a segment is OK, all replicas of that segment are OK.\<close>

definition okUniform :: "Replica list \<Rightarrow> bool" where
  "okUniform rs \<longleftrightarrow>
     (\<forall>i<length rs. \<forall>j<length rs.
        segmentId (rs ! i) = segmentId (rs ! j) \<longrightarrow> state (rs ! i) = OK \<longrightarrow>
        state (rs ! j) = OK)"

text \<open>A replica is FAILED only if its own request failed.\<close>

definition failedHonest :: "(nat \<Rightarrow> GrdResult) \<Rightarrow> Replica list \<Rightarrow> bool" where
  "failedHonest grd rs \<longleftrightarrow> (\<forall>i<length rs. state (rs ! i) = FAILED \<longrightarrow> grd i \<noteq> Replayed)"

text \<open>
  A replica is OK only if the request for some replica of its segment succeeded: its own,
  or the one that had all replicas of the segment marked OK.
\<close>

definition okHonest :: "(nat \<Rightarrow> GrdResult) \<Rightarrow> Replica list \<Rightarrow> bool" where
  "okHonest grd rs \<longleftrightarrow>
     (\<forall>j<length rs. state (rs ! j) = OK \<longrightarrow>
        (\<exists>i<length rs. segmentId (rs ! i) = segmentId (rs ! j) \<and> grd i = Replayed))"

text \<open>The segments replayed are those with an OK replica, each replayed once.\<close>

definition replayedOK :: "Recovery \<Rightarrow> bool" where
  "replayedOK s \<longleftrightarrow>
     distinct (replayed s) \<and>
     set (replayed s) =
       {seg. \<exists>i<length (replicas s). state (replicas s ! i) = OK \<and>
               segmentId (replicas s ! i) = seg}"

text \<open>
  A replica is uncovered when it is NOT_STARTED and no request for its segment is in
  flight: these are the candidates for a free slot.
\<close>

definition uncovered :: "Recovery \<Rightarrow> nat \<Rightarrow> bool" where
  "uncovered s i \<longleftrightarrow>
     i < length (replicas s) \<and> state (replicas s ! i) = NOT_STARTED \<and>
     segmentId (replicas s ! i) \<notin> runningSet s"

text \<open>A slot is only ever left empty when there is no candidate for it.\<close>

definition coveredOK :: "Recovery \<Rightarrow> bool" where
  "coveredOK s \<longleftrightarrow> (\<exists>k<4. tasks s ! k = None) \<longrightarrow> (\<forall>i. \<not> uncovered s i)"

definition coreInv :: "(nat \<Rightarrow> GrdResult) \<Rightarrow> Recovery \<Rightarrow> bool" where
  "coreInv grd s \<longleftrightarrow>
     slotsOK s \<and> waitingDistinct (replicas s) \<and> runningOK s \<and> cursorOK s \<and>
     okUniform (replicas s) \<and> failedHonest grd (replicas s) \<and> replayedOK s"

definition recoveryInv :: "(nat \<Rightarrow> GrdResult) \<Rightarrow> Recovery \<Rightarrow> bool" where
  "recoveryInv grd s \<longleftrightarrow> coreInv grd s \<and> activeOK s \<and> coveredOK s"

text \<open>
  The work left: a replica not yet started costs two steps (to start and to finish it), a
  replica in flight one.
\<close>

fun weight :: "State \<Rightarrow> nat" where
  "weight NOT_STARTED = 2"
| "weight WAITING = 1"
| "weight OK = 0"
| "weight FAILED = 0"

definition workLeft :: "Recovery \<Rightarrow> nat" where
  "workLeft s = sum_list (map (\<lambda>r. weight (state r)) (replicas s))"

text \<open>
  The loop invariant of the initial round: the slots still to visit are empty and the
  others are occupied; from \<^verbatim>\<open>replicaIt\<close> on nothing has been started; every replica before
  it has been started or skipped because its segment is in flight; and \<^verbatim>\<open>replicaIt\<close>
  itself, when not at the end, is not in flight.
\<close>

definition initialOK :: "nat list \<Rightarrow> nat \<Rightarrow> Recovery \<Rightarrow> bool" where
  "initialOK ks it s \<longleftrightarrow>
     distinct ks \<and> (\<forall>k\<in>set ks. k < 4 \<and> tasks s ! k = None) \<and>
     (\<forall>k<4. k \<notin> set ks \<longrightarrow> tasks s ! k \<noteq> None) \<and>
     it \<le> length (replicas s) \<and>
     (\<forall>i<length (replicas s). it \<le> i \<longrightarrow> state (replicas s ! i) = NOT_STARTED) \<and>
     (\<forall>i<it. state (replicas s ! i) = WAITING \<or> segmentId (replicas s ! i) \<in> runningSet s) \<and>
     (it < length (replicas s) \<longrightarrow> segmentId (replicas s ! it) \<notin> runningSet s)"

text \<open>
  The states the event loop passes through: the state after any sequence of polls, each
  given as the slot polled and the answer of \<^verbatim>\<open>isReady()\<close>.
\<close>

definition runPolls :: "(nat \<Rightarrow> GrdResult) \<Rightarrow> (nat \<times> bool) list \<Rightarrow> Recovery \<Rightarrow> Recovery" where
  "runPolls grd polls s = foldl (\<lambda>s p. pollTask grd (snd p) (fst p) s) s polls"

text \<open>
  The replica failover scenario: the first request returns a corrupt segment, every
  other request succeeds. \<open>failoverFinal\<close> is the scoreboard the recovery of segment 42
  from backups 1 and 2 ends with.
\<close>

definition corruptThenGood :: "nat \<Rightarrow> GrdResult" where
  "corruptThenGood i = (if i = 0 then SegmentIteratorException else Replayed)"

definition failoverFinal :: Recovery where
  "failoverFinal =
     \<lparr>replicas = [\<lparr>backupId = 1, segmentId = 42, state = OK\<rparr>,
                  \<lparr>backupId = 2, segmentId = 42, state = OK\<rparr>],
      runningSet = {}, tasks = [None, None, None, None], activeRequests = 0,
      notStarted = 2, replayed = [42]\<rparr>"

text \<open>Every request returns a corrupt segment.\<close>

definition allCorrupt :: "nat \<Rightarrow> GrdResult" where
  "allCorrupt i = SegmentIteratorException"

section \<open>Tablets and their ownership\<close>

text \<open>The status codes of the RPC responses; a response header starts out as STATUS_OK.\<close>

datatype Status =
  STATUS_OK | STATUS_UNKNOWN_TABLET | STATUS_UNKNOWN_INDEXLET | STATUS_OBJECT_EXISTS
  | STATUS_OBJECT_DOESNT_EXIST | STATUS_WRONG_VERSION | STATUS_REQUEST_FORMAT_ERROR
  | STATUS_INTERNAL_ERROR | STATUS_RETRY | STATUS_NO_TABLE_SPACE

text \<open>\<^verbatim>\<open>TabletManager::TabletState\<close> and \<^verbatim>\<open>TabletManager::Tablet\<close>.\<close>

datatype TabletState = NORMAL | RECOVERING | LOCKED_FOR_MIGRATION

record Tablet =
  tableId :: u64
  startKeyHash :: u64
  endKeyHash :: u64
  tabletState :: TabletState

text \<open>
  Modelled from the spec: the class \<^verbatim>\<open>TabletManager\<close> (\<^verbatim>\<open>addTablet\<close>, \<^verbatim>\<open>getTablet\<close>,
  \<^verbatim>\<open>changeState\<close>, \<^verbatim>\<open>deleteTablet\<close>) is not among the sources; only its callers in
  \<^verbatim>\<open>MasterService\<close> are. The spec gives a tablet as a table id, a range of key hashes and a
  state, with the owned tablets of a master pairwise non-overlapping. The tablet map is
  the list of the tablets owned; key hashes compare as unsigned 64-bit integers.
\<close>

type_synonym TabletManager = "Tablet list"

text \<open>
  Modelled from the spec: a tablet overlaps a range of a table when it is of that table
  and the two ranges of key hashes have a key hash in common; it has the range when its
  table and both ends are those of the range.
\<close>

definition overlaps :: "Tablet \<Rightarrow> u64 \<Rightarrow> u64 \<Rightarrow> u64 \<Rightarrow> bool" where
  "overlaps t tid firstKeyHash lastKeyHash \<longleftrightarrow>
     tableId t = tid \<and> startKeyHash t \<le> lastKeyHash \<and> firstKeyHash \<le> endKeyHash t"

definition sameRange :: "Tablet \<Rightarrow> u64 \<Rightarrow> u64 \<Rightarrow> u64 \<Rightarrow> bool" where
  "sameRange t tid firstKeyHash lastKeyHash \<longleftrightarrow>
     tableId t = tid \<and> startKeyHash t = firstKeyHash \<and> endKeyHash t = lastKeyHash"

text \<open>
  Modelled from the spec: \<^verbatim>\<open>TabletManager::addTablet\<close> is not among the sources. The spec
  has an overlap with an existing tablet rejected, and the callers say of a failed call
  "there's some overlapping tablet": the tablet is added, in the given state, unless a
  tablet of the map overlaps it. The result is the boolean returned and the map
  afterwards.
\<close>

definition addTablet ::
  "TabletManager \<Rightarrow> u64 \<Rightarrow> u64 \<Rightarrow> u64 \<Rightarrow> TabletState \<Rightarrow> bool \<times> TabletManager" where
  "addTablet tm tid firstKeyHash lastKeyHash st =
     (if list_ex (\<lambda>t. overlaps t tid firstKeyHash lastKeyHash) tm then (False, tm)
      else (True, tm @ [\<lparr>tableId = tid, startKeyHash = firstKeyHash, endKeyHash = lastKeyHash,
                          tabletState = st\<rparr>]))"

text \<open>
  Modelled from the spec: \<^verbatim>\<open>TabletManager::getTablet\<close>, called with a table id and a range,
  is not among the sources. The callers use it to find the tablet they own for exactly
  the range of a request: it returns the tablet of the map that has the range, if any.
\<close>

definition getTablet :: "TabletManager \<Rightarrow> u64 \<Rightarrow> u64 \<Rightarrow> u64 \<Rightarrow> Tablet option" where
  "getTablet tm tid firstKeyHash lastKeyHash =
     find (\<lambda>t. sameRange t tid firstKeyHash lastKeyHash) tm"

text \<open>
  Modelled from the spec: \<^verbatim>\<open>TabletManager::changeState\<close> is not among the sources. The
  spec's tablet state machine moves a tablet from one state to another; the callers pass
  the range, the state expected and the new state: the tablet that has the range and is
  in the expected state gets the new state, and the call fails if there is none.
\<close>

definition changeState ::
  "TabletManager \<Rightarrow> u64 \<Rightarrow> u64 \<Rightarrow> u64 \<Rightarrow> TabletState \<Rightarrow> TabletState \<Rightarrow> bool \<times> TabletManager"
  where
  "changeState tm tid firstKeyHash lastKeyHash old new =
     (if list_ex (\<lambda>t. sameRange t tid firstKeyHash lastKeyHash \<and> tabletState t = old) tm
      then (True,
            map (\<lambda>t. if sameRange t tid firstKeyHash lastKeyHash \<and> tabletState t = old
                      then t\<lparr>tabletState := new\<rparr> else t) tm)
      else (False, tm))"

text \<open>
  Modelled from the spec: \<^verbatim>\<open>TabletManager::deleteTablet\<close> is not among the sources; it
  removes the tablet that has the range.
\<close>

definition deleteTablet :: "TabletManager \<Rightarrow> u64 \<Rightarrow> u64 \<Rightarrow> u64 \<Rightarrow> TabletManager" where
  "deleteTablet tm tid firstKeyHash lastKeyHash =
     filter (\<lambda>t. \<not> sameRange t tid firstKeyHash lastKeyHash) tm"

text \<open>
  The invariant of the tablet map: every range is non-empty and two different tablets
  do not overlap.
\<close>

definition tabletsOK :: "TabletManager \<Rightarrow> bool" where
  "tabletsOK tm \<longleftrightarrow>
     distinct tm \<and> (\<forall>t\<in>set tm. startKeyHash t \<le> endKeyHash t) \<and>
     (\<forall>t\<in>set tm. \<forall>t'\<in>set tm.
        overlaps t (tableId t') (startKeyHash t') (endKeyHash t') \<longrightarrow> t = t')"

text \<open>
  The part of \<^verbatim>\<open>MasterService\<close> the handlers below read and write: the server's own id,
  the tablet map, the flag \<^verbatim>\<open>logEverSynced\<close> and the cluster time.
\<close>

record Master =
  serverId :: u64
  tabletManager :: TabletManager
  logEverSynced :: bool
  clusterTime :: u64

text \<open>
  \<^verbatim>\<open>MasterService::takeTabletOwnership\<close>. The first step is
  \<^verbatim>\<open>if (!logEverSynced) { objectManager.syncChanges(); logEverSynced = true; }\<close>, of which
  the flag is kept. The result is the status of the response and the master afterwards.
\<close>

definition takeTabletOwnership :: "Master \<Rightarrow> u64 \<Rightarrow> u64 \<Rightarrow> u64 \<Rightarrow> Status \<times> Master" where
  "takeTabletOwnership m tid firstKeyHash lastKeyHash =
     (let m1 = (if \<not> logEverSynced m then m\<lparr>logEverSynced := True\<rparr> else m);
          (added, tm1) = addTablet (tabletManager m1) tid firstKeyHash lastKeyHash NORMAL
      in if added then (STATUS_OK, m1\<lparr>tabletManager := tm1\<rparr>)
         else if (case getTablet (tabletManager m1) tid firstKeyHash lastKeyHash of
                    Some tablet \<Rightarrow> tabletState tablet = NORMAL
                  | None \<Rightarrow> False)
         then (STATUS_OK, m1)
         else
           (let (changed, tm2) =
                  changeState (tabletManager m1) tid firstKeyHash lastKeyHash RECOVERING NORMAL
            in if changed then (STATUS_OK, m1\<lparr>tabletManager := tm2\<rparr>)
               else (STATUS_INTERNAL_ERROR, m1)))"

text \<open>
  A tablet that is being migrated away: table 1, key hashes 0 to 9, locked for migration.
\<close>

definition lockedTabletMaster :: Master where
  "lockedTabletMaster =
     \<lparr>serverId = 7,
      tabletManager = [\<lparr>tableId = 1, startKeyHash = 0, endKeyHash = 9,
                        tabletState = LOCKED_FOR_MIGRATION\<rparr>],
      logEverSynced = True, clusterTime = 0\<rparr>"

text \<open>
  A master that holds a tablet being recovered (table 1, key hashes 0 to 9) next to a
  tablet it serves (key hashes 10 to 19).
\<close>

definition recoveringTabletMaster :: Master where
  "recoveringTabletMaster =
     \<lparr>serverId = 7,
      tabletManager =
        [\<lparr>tableId = 1, startKeyHash = 0, endKeyHash = 9, tabletState = RECOVERING\<rparr>,
         \<lparr>tableId = 1, startKeyHash = 10, endKeyHash = 19, tabletState = NORMAL\<rparr>],
      logEverSynced = True, clusterTime = 0\<rparr>"

section \<open>Tablet migration\<close>

text \<open>
  The types of log entries \<^verbatim>\<open>migrateSingleLogEntry\<close> tells apart; every other type of the
  enumeration \<^verbatim>\<open>LogEntryType\<close> is \<open>LOG_ENTRY_TYPE_OTHER\<close> with its number.
\<close>

datatype LogEntryType =
  LOG_ENTRY_TYPE_OBJ | LOG_ENTRY_TYPE_OBJTOMB | LOG_ENTRY_TYPE_TXDECISION
  | LOG_ENTRY_TYPE_OTHER nat

text \<open>
  What \<^verbatim>\<open>migrateSingleLogEntry\<close> reads of the entry the log iterator is at: its type
  (\<^verbatim>\<open>it.getType()\<close>), the table id and key hash of its key or of its decision record,
  the size of the buffer it is copied to (\<^verbatim>\<open>buffer.size()\<close>) and its reference in the log
  (\<^verbatim>\<open>it.getReference()\<close>). The entry also carries a version, which
  \<^verbatim>\<open>migrateSingleLogEntry\<close> does not read and the new owner does when it replays the
  entry: the version of the object, and for a tombstone the version of the object it
  deletes.
\<close>

record LogEntry =
  entryType :: LogEntryType
  entryTableId :: u64
  entryKeyHash :: u64
  entryBytes :: nat
  entryReference :: nat
  entryVersion :: u64

text \<open>
  Modelled from the spec: the class \<^verbatim>\<open>Segment\<close> is not among the sources. The spec calls a
  segment the fixed-size append unit of the log and has an entry that does not fit in an
  empty segment end the migration with INTERNAL_ERROR: a segment holds entries, and
  \<^verbatim>\<open>append\<close> fails when the entry does not fit in what is left of the segment's size.
\<close>

type_synonym Segment = "LogEntry list"

text \<open>
  Modelled from the spec: \<^verbatim>\<open>Segment::append\<close> is not among the sources; the entry is added
  at the end when its bytes fit in what the entries of the segment leave of its size.
\<close>

definition segmentBytes :: "Segment \<Rightarrow> nat" where
  "segmentBytes seg = sum_list (map entryBytes seg)"

definition appendEntry :: "nat \<Rightarrow> Segment \<Rightarrow> LogEntry \<Rightarrow> Segment option" where
  "appendEntry segmentSize seg e =
     (if segmentBytes seg + entryBytes e \<le> segmentSize then Some (seg @ [e]) else None)"

text \<open>
  The RPCs a migrating master issues, with their arguments:
  \<^verbatim>\<open>prepForMigration(newOwner, tableId, firstKeyHash, lastKeyHash)\<close>,
  \<^verbatim>\<open>getHeadOfLog(newOwner)\<close>,
  \<^verbatim>\<open>receiveMigrationData(newOwner, segment, tableId, firstKeyHash)\<close> and
  \<^verbatim>\<open>reassignTabletOwnership(tableId, firstKeyHash, lastKeyHash, newOwner)\<close>.
\<close>

datatype Rpc =
  PrepForMigration u64 u64 u64 u64
  | GetHeadOfLog u64
  | ReceiveMigrationData u64 Segment u64 u64
  | ReassignTabletOwnership u64 u64 u64 u64

text \<open>
  The state \<^verbatim>\<open>migrateSingleLogEntry\<close> works on: the transfer segment (a \<^verbatim>\<open>Tub\<close>, empty or
  constructed), the counters \<^verbatim>\<open>entryTotals\<close> and \<^verbatim>\<open>totalBytes\<close> (unsigned 64-bit), the RPCs
  issued so far, and the status of the response.
\<close>

record Migration =
  transferSeg :: "Segment option"
  entryTotals :: "LogEntryType \<Rightarrow> u64"
  totalBytes :: u64
  rpcs :: "Rpc list"
  respStatus :: Status

text \<open>
  \<^verbatim>\<open>MasterService::migrateSingleLogEntry\<close>, for the entry \<open>e\<close> the iterator is at. The
  parameter \<open>keyPointsAtReference\<close> is \<^verbatim>\<open>objectManager.keyPointsAtReference(key,
  it.getReference())\<close> for the key of the entry: whether the hash table points at this
  entry when the iterator visits it. The result is the return value (0 or 1) and the
  state afterwards.
\<close>

definition migrateSingleLogEntry ::
  "nat \<Rightarrow> (LogEntry \<Rightarrow> bool) \<Rightarrow> u64 \<Rightarrow> u64 \<Rightarrow> u64 \<Rightarrow> u64 \<Rightarrow> LogEntry \<Rightarrow> Migration
     \<Rightarrow> nat \<times> Migration" where
  "migrateSingleLogEntry segmentSize keyPointsAtReference newOwnerMasterId tid firstKeyHash
       lastKeyHash e st =
     (if entryType e \<noteq> LOG_ENTRY_TYPE_OBJ \<and> entryType e \<noteq> LOG_ENTRY_TYPE_OBJTOMB \<and>
         entryType e \<noteq> LOG_ENTRY_TYPE_TXDECISION
      then (0, st)
      else if entryTableId e \<noteq> tid then (0, st)
      else if entryKeyHash e < firstKeyHash \<or> entryKeyHash e > lastKeyHash then (0, st)
      else if entryType e = LOG_ENTRY_TYPE_OBJ \<and> \<not> keyPointsAtReference e then (0, st)
      else
        (let st1 = st\<lparr>entryTotals := (entryTotals st)(entryType e := entryTotals st (entryType e) + 1),
                       totalBytes := totalBytes st + of_nat (entryBytes e)\<rparr>;
             seg = (case transferSeg st1 of None \<Rightarrow> [] | Some seg \<Rightarrow> seg)
         in case appendEntry segmentSize seg e of
              Some seg' \<Rightarrow> (0, st1\<lparr>transferSeg := Some seg'\<rparr>)
            | None \<Rightarrow>
                (let st2 = st1\<lparr>rpcs := rpcs st1 @
                                  [ReceiveMigrationData newOwnerMasterId seg tid firstKeyHash]\<rparr>
                 in case appendEntry segmentSize [] e of
                      Some seg' \<Rightarrow> (0, st2\<lparr>transferSeg := Some seg'\<rparr>)
                    | None \<Rightarrow>
                        (1, st2\<lparr>transferSeg := Some [],
                                respStatus := STATUS_INTERNAL_ERROR\<rparr>))))"

text \<open>
  The two loops of \<^verbatim>\<open>migrateTablet\<close> over the log, each ended by the first entry for
  which \<^verbatim>\<open>migrateSingleLogEntry\<close> reports an error (\<^verbatim>\<open>if (error) return;\<close>): \<open>Inl\<close> is
  that return, \<open>Inr\<close> the end of the loop.
\<close>

fun migrateEntries ::
  "nat \<Rightarrow> (LogEntry \<Rightarrow> bool) \<Rightarrow> u64 \<Rightarrow> u64 \<Rightarrow> u64 \<Rightarrow> u64 \<Rightarrow> LogEntry list \<Rightarrow> Migration
     \<Rightarrow> Migration + Migration" where
  "migrateEntries segmentSize kpr newOwner tid firstKeyHash lastKeyHash [] st = Inr st"
| "migrateEntries segmentSize kpr newOwner tid firstKeyHash lastKeyHash (e # es) st =
     (case migrateSingleLogEntry segmentSize kpr newOwner tid firstKeyHash lastKeyHash e st of
        (error, st') \<Rightarrow>
          if error \<noteq> 0 then Inl st'
          else migrateEntries segmentSize kpr newOwner tid firstKeyHash lastKeyHash es st')"

text \<open>
  \<^verbatim>\<open>MasterService::migrateTablet\<close>. The log is given as the entries the iterator visits
  before the head segment (\<open>older\<close>, first loop) and those it visits on the head up to the
  position taken after the tablet has been locked (\<open>onHead\<close>, second loop). \<open>prep\<close> is the
  status the new owner answers \<^verbatim>\<open>prepForMigration\<close> with; a status other than STATUS_OK is
  thrown by the RPC wrapper and ends the handler with that status. The other RPCs are
  taken to succeed, and the wait for earlier RPCs to finish (the epoch loop) to end. The
  result is the status of the response, the master afterwards and the RPCs issued.
\<close>

definition migrateTablet ::
  "nat \<Rightarrow> (LogEntry \<Rightarrow> bool) \<Rightarrow> Status \<Rightarrow> LogEntry list \<Rightarrow> LogEntry list \<Rightarrow> Master
     \<Rightarrow> u64 \<Rightarrow> u64 \<Rightarrow> u64 \<Rightarrow> u64 \<Rightarrow> Status \<times> Master \<times> Rpc list" where
  "migrateTablet segmentSize kpr prep older onHead m tid firstKeyHash lastKeyHash
       newOwnerMasterId =
     (case getTablet (tabletManager m) tid firstKeyHash lastKeyHash of
        None \<Rightarrow> (STATUS_UNKNOWN_TABLET, m, [])
      | Some tablet \<Rightarrow>
          if newOwnerMasterId = serverId m then (STATUS_REQUEST_FORMAT_ERROR, m, [])
          else if prep \<noteq> STATUS_OK
          then (prep, m, [PrepForMigration newOwnerMasterId tid firstKeyHash lastKeyHash])
          else
            (let st0 = \<lparr>transferSeg = None, entryTotals = (\<lambda>t. 0), totalBytes = 0,
                        rpcs = [PrepForMigration newOwnerMasterId tid firstKeyHash lastKeyHash,
                                GetHeadOfLog newOwnerMasterId],
                        respStatus = STATUS_OK\<rparr>
             in case migrateEntries segmentSize kpr newOwnerMasterId tid firstKeyHash
                       lastKeyHash older st0 of
                  Inl st \<Rightarrow> (respStatus st, m, rpcs st)
                | Inr st1 \<Rightarrow>
                    (let m1 = m\<lparr>tabletManager :=
                                  snd (changeState (tabletManager m) tid firstKeyHash lastKeyHash
                                         NORMAL LOCKED_FOR_MIGRATION)\<rparr>
                     in case migrateEntries segmentSize kpr newOwnerMasterId tid firstKeyHash
                               lastKeyHash onHead st1 of
                          Inl st \<Rightarrow> (respStatus st, m1, rpcs st)
                        | Inr st2 \<Rightarrow>
                            (let sent = (case transferSeg st2 of
                                           None \<Rightarrow> rpcs st2
                                         | Some seg \<Rightarrow>
                                             rpcs st2 @
                                             [ReceiveMigrationData newOwnerMasterId seg tid
                                                firstKeyHash])
                             in (respStatus st2,
                                 m1\<lparr>tabletManager :=
                                      deleteTablet (tabletManager m1) tid firstKeyHash
                                        lastKeyHash\<rparr>,
                                 sent @ [ReassignTabletOwnership tid firstKeyHash lastKeyHash
                                           newOwnerMasterId])))))"

subsection \<open>What the claims about migration speak of\<close>


















text \<open>A tablet covers a range of a table when the range lies within the tablet.\<close>

definition covers :: "Tablet \<Rightarrow> u64 \<Rightarrow> u64 \<Rightarrow> u64 \<Rightarrow> bool" where
  "covers t tid firstKeyHash lastKeyHash \<longleftrightarrow>
     tableId t = tid \<and> startKeyHash t \<le> firstKeyHash \<and> lastKeyHash \<le> endKeyHash t"


definition allLive :: "LogEntry \<Rightarrow> bool" where
  "allLive e = True"




definition objectV2 :: LogEntry where
  "objectV2 =
     \<lparr>entryType = LOG_ENTRY_TYPE_OBJ, entryTableId = 1, entryKeyHash = 5, entryBytes = 100,
      entryReference = 2, entryVersion = 2\<rparr>"


definition migratingMaster :: Master where
  "migratingMaster =
     \<lparr>serverId = 7,
      tabletManager = [\<lparr>tableId = 1, startKeyHash = 0, endKeyHash = 9, tabletState = NORMAL\<rparr>],
      logEverSynced = True, clusterTime = 0\<rparr>"

section \<open>The Recover RPC handler\<close>





text \<open>
  After the coordinator has agreed: every tablet of the partition goes from RECOVERING to
  NORMAL; a tablet whose state cannot be changed makes the handler throw a fatal error
  (\<open>Inl\<close>).
\<close>

fun serveTablets :: "(u64 \<times> u64 \<times> u64) list \<Rightarrow> TabletManager \<Rightarrow> TabletManager + TabletManager"
  where
  "serveTablets [] tm = Inr tm"
| "serveTablets (t # ts) tm =
     (case changeState tm (fst t) (fst (snd t)) (snd (snd t)) RECOVERING NORMAL of
        (changed, tm') \<Rightarrow> if \<not> changed then Inl tm' else serveTablets ts tm')"

text \<open>After the coordinator has cancelled the recovery: the tablets are deleted.\<close>

fun dropTablets :: "(u64 \<times> u64 \<times> u64) list \<Rightarrow> TabletManager \<Rightarrow> TabletManager" where
  "dropTablets [] tm = tm"
| "dropTablets (t # ts) tm = dropTablets ts (deleteTablet tm (fst t) (fst (snd t)) (snd (snd t)))"

text \<open>
  How the handler ends: it kills the process (\<^verbatim>\<open>DIE\<close>), throws because a tablet overlaps an
  existing one, aborts on the assertion of \<^verbatim>\<open>detectSegmentRecoveryFailure\<close>, never gets out
  of the event loop, throws the fatal error of a tablet that cannot be made NORMAL, or
  returns having made the tablets NORMAL or having deleted them. The boolean is
  \<^verbatim>\<open>successful\<close>, as reported to the coordinator.
\<close>

datatype RecoverOutcome =
  Died | ThrewOverlap Master | Aborted Master | NeverReturns | ThrewFatal Master bool
  | Serving Master bool | Cancelled Master bool


text \<open>
  The rest of the handler: the partition recovery (\<^verbatim>\<open>recover\<close>, whose
  \<^verbatim>\<open>SegmentRecoveryFailedException\<close> is caught and makes \<^verbatim>\<open>successful\<close> false), the report to
  the coordinator, whose answer \<^verbatim>\<open>cancelRecovery\<close> is the parameter \<open>cancel\<close> applied to
  \<^verbatim>\<open>successful\<close>, and then the tablets made NORMAL or deleted.
\<close>

definition recoverEnd ::
  "(u64 \<times> u64 \<times> u64) list \<Rightarrow> (u64 \<times> u64) list \<Rightarrow> (nat \<Rightarrow> GrdResult) \<Rightarrow> (nat \<Rightarrow> bool) list
     \<Rightarrow> (bool \<Rightarrow> bool) \<Rightarrow> Master \<Rightarrow> RecoverOutcome" where
  "recoverEnd tablets ws grd sched cancel m =
     (case recover grd sched (mkReplicas ws) of
        None \<Rightarrow> NeverReturns
      | Some (Inl AssertionFailed) \<Rightarrow> Aborted m
      | Some r \<Rightarrow>
          (let successful = (case r of Inl e \<Rightarrow> False | Inr s \<Rightarrow> True) in
           if \<not> cancel successful then
             (case serveTablets tablets (tabletManager m) of
                Inl tm \<Rightarrow> ThrewFatal (m\<lparr>tabletManager := tm\<rparr>) successful
              | Inr tm \<Rightarrow> Serving (m\<lparr>tabletManager := tm\<rparr>) successful)
           else Cancelled (m\<lparr>tabletManager := dropTablets tablets (tabletManager m)\<rparr>)
                  successful))"





section \<open>Recovery orchestration on the coordinator\<close>

text \<open>
  An entry of a server list (\<^verbatim>\<open>ProtoBuf::ServerList::Entry\<close>), as the unit test of the
  recovery reads it: the role of the server, its id, its service locator and, in the
  list of replicas handed to the recovery masters, the segment id.
\<close>

datatype ServerType = MASTER | BACKUP

record ServerEntry =
  server_type :: ServerType
  server_id :: u64
  service_locator :: string
  segment_id :: "u64 option"

text \<open>
  Modelled from the spec: the class \<^verbatim>\<open>Recovery\<close> (the map from segment ids to backups and
  the list of replicas it builds, and its method \<^verbatim>\<open>start\<close>) is not among the sources; only
  its unit test is. The spec has the builder ask every listed backup which segments it
  holds for the crashed master, and combine the answers, without duplicates, into a
  multimap from segment id to backup that iterates with the segment ids ascending and,
  within a segment id, the backups by ascending id. \<open>startReadingData b masterId\<close> is the
  answer of backup \<open>b\<close>; a backup that does not answer contributes nothing.
\<close>

text \<open>
  Modelled from the spec: the order in which the map iterates, and the insertion of one
  answer into the map, which keeps the order and drops a pair the map already has.
\<close>

definition replicaBefore :: "u64 \<times> ServerEntry \<Rightarrow> u64 \<times> ServerEntry \<Rightarrow> bool" where
  "replicaBefore a b \<longleftrightarrow>
     fst a < fst b \<or> (fst a = fst b \<and> server_id (snd a) < server_id (snd b))"

fun insertReplica :: "u64 \<times> ServerEntry \<Rightarrow> (u64 \<times> ServerEntry) list \<Rightarrow> (u64 \<times> ServerEntry) list"
  where
  "insertReplica x [] = [x]"
| "insertReplica x (y # ys) =
     (if replicaBefore x y then x # y # ys
      else if fst x = fst y \<and> server_id (snd x) = server_id (snd y) then y # ys
      else y # insertReplica x ys)"

text \<open>
  Modelled from the spec: the map for a crashed master, from the answers of the backups
  in the order of the list of backups.
\<close>

definition buildSegmentIdToBackups ::
  "u64 \<Rightarrow> ServerEntry list \<Rightarrow> (ServerEntry \<Rightarrow> u64 \<Rightarrow> u64 list) \<Rightarrow> (u64 \<times> ServerEntry) list" where
  "buildSegmentIdToBackups masterId backupHosts startReadingData =
     foldl (\<lambda>m b. foldl (\<lambda>m seg. insertReplica (seg, b) m) m (startReadingData b masterId))
       [] backupHosts"

text \<open>
  Modelled from the spec: the list of replicas for dispatch has one entry for each pair
  of the map, in the order of the map, carrying the segment id and the BACKUP role.
\<close>

definition createBackupList :: "(u64 \<times> ServerEntry) list \<Rightarrow> ServerEntry list" where
  "createBackupList m =
     map (\<lambda>p. \<lparr>server_type = BACKUP, server_id = server_id (snd p),
                service_locator = service_locator (snd p), segment_id = Some (fst p)\<rparr>) m"

text \<open>
  A tablet of the crashed master (\<^verbatim>\<open>ProtoBuf::Tablets::Tablet\<close>), as the unit test builds it:
  the table, the range, and in \<^verbatim>\<open>user_data\<close> the id of its recovery partition.
\<close>

record TabletEntry =
  table_id :: u64
  start_object_id :: u64
  end_object_id :: u64
  user_data :: nat

text \<open>
  Modelled from the spec: the partitioner only groups the tablets by partition id; the
  partitions are taken in the order of their ids.
\<close>

definition partitionsOf :: "TabletEntry list \<Rightarrow> (nat \<times> TabletEntry list) list" where
  "partitionsOf tablets =
     map (\<lambda>p. (p, filter (\<lambda>t. user_data t = p) tablets)) (sort (remdups (map user_data tablets)))"

text \<open>
  Modelled from the spec: the dispatcher picks one available recovery master for each
  partition and has it recover the partition; if the masters run out before the
  partitions do, the partitions left over are not attempted and a terminal diagnostic
  declares the system unrecovered. The events are the lines the unit test reads in the
  log: the attempt of a partition, with the locator of the master, the number of tablets
  and the number of replicas handed over, and the diagnostic.
\<close>

datatype DispatchEvent = TryingPartition string nat nat | Busted

fun dispatch :: "ServerEntry list \<Rightarrow> (nat \<times> TabletEntry list) list \<Rightarrow> nat \<Rightarrow> DispatchEvent list"
  where
  "dispatch ms [] hosts = []"
| "dispatch [] (p # ps) hosts = [Busted]"
| "dispatch (m # ms) (p # ps) hosts =
     TryingPartition (service_locator m) (length (snd p)) hosts # dispatch ms ps hosts"

text \<open>
  Modelled from the spec: \<^verbatim>\<open>Recovery::start\<close>, the dispatch of the partitions of the
  crashed master's tablets to the recovery masters, each handed the list of replicas.
\<close>

definition start ::
  "u64 \<Rightarrow> TabletEntry list \<Rightarrow> ServerEntry list \<Rightarrow> ServerEntry list
     \<Rightarrow> (ServerEntry \<Rightarrow> u64 \<Rightarrow> u64 list) \<Rightarrow> DispatchEvent list" where
  "start masterId tablets masterHosts backupHosts startReadingData =
     dispatch masterHosts (partitionsOf tablets)
       (length (createBackupList
                  (buildSegmentIdToBackups masterId backupHosts startReadingData)))"

subsection \<open>The set-up of the unit test\<close>

text \<open>
  Three backups and two masters; for the crashed master 99, backup 1 holds the segments
  88 and 89, backup 2 holds segment 88 and backup 3 holds nothing.
\<close>

definition backup1 :: ServerEntry where
  "backup1 = \<lparr>server_type = BACKUP, server_id = 1, service_locator = ''mock:host=backup1'',
              segment_id = None\<rparr>"

definition backup2 :: ServerEntry where
  "backup2 = \<lparr>server_type = BACKUP, server_id = 2, service_locator = ''mock:host=backup2'',
              segment_id = None\<rparr>"

definition backup3 :: ServerEntry where
  "backup3 = \<lparr>server_type = BACKUP, server_id = 3, service_locator = ''mock:host=backup3'',
              segment_id = None\<rparr>"

definition master1 :: ServerEntry where
  "master1 = \<lparr>server_type = MASTER, server_id = 9999998,
              service_locator = ''mock:host=master1'', segment_id = None\<rparr>"

definition master2 :: ServerEntry where
  "master2 = \<lparr>server_type = MASTER, server_id = 9999999,
              service_locator = ''mock:host=master2'', segment_id = None\<rparr>"

definition testStorage :: "ServerEntry \<Rightarrow> u64 \<Rightarrow> u64 list" where
  "testStorage b masterId =
     (if masterId \<noteq> 99 then []
      else if server_id b = 1 then [88, 89]
      else if server_id b = 2 then [88]
      else [])"

text \<open>The tablets of the test with three partitions.\<close>

definition threePartitions :: "TabletEntry list" where
  "threePartitions =
     [\<lparr>table_id = 123, start_object_id = 0, end_object_id = 9, user_data = 0\<rparr>,
      \<lparr>table_id = 123, start_object_id = 10, end_object_id = 19, user_data = 1\<rparr>,
      \<lparr>table_id = 123, start_object_id = 20, end_object_id = 29, user_data = 2\<rparr>]"

section \<open>Partition recovery: proofs\<close>

lemma finishTask_tasks: "tasks (finishTask grd k i s) = (tasks s)[k := None]"
  by (simp add: finishTask_def Let_def split: GrdResult.splits)

lemma finishTask_notStarted: "notStarted (finishTask grd k i s) = notStarted s"
  by (simp add: finishTask_def Let_def split: GrdResult.splits)

lemma finishTask_activeRequests: "activeRequests (finishTask grd k i s) = activeRequests s"
  by (simp add: finishTask_def Let_def split: GrdResult.splits)

lemma finishTask_length: "length (replicas (finishTask grd k i s)) = length (replicas s)"
  by (simp add: finishTask_def Let_def split: GrdResult.splits)

lemma finishTask_runningSet:
  "runningSet (finishTask grd k i s) = runningSet s - {segmentId (replicas s ! i)}"
  by (simp add: finishTask_def Let_def split: GrdResult.splits)

lemma finishTask_replayed:
  "replayed (finishTask grd k i s) =
     (if grd i = Replayed then replayed s @ [segmentId (replicas s ! i)] else replayed s)"
  by (simp add: finishTask_def Let_def split: GrdResult.splits)

lemma finishTask_segmentId:
  "j < length (replicas s) \<Longrightarrow>
   segmentId (replicas (finishTask grd k i s) ! j) = segmentId (replicas s ! j)"
  by (cases "j = i") (simp_all add: finishTask_def Let_def split: GrdResult.splits)

lemma finishTask_backupId:
  "j < length (replicas s) \<Longrightarrow>
   backupId (replicas (finishTask grd k i s) ! j) = backupId (replicas s ! j)"
  by (cases "j = i") (simp_all add: finishTask_def Let_def split: GrdResult.splits)

lemma finishTask_state:
  "j < length (replicas s) \<Longrightarrow>
   state (replicas (finishTask grd k i s) ! j) =
     (if grd i = Replayed
      then (if segmentId (replicas s ! j) = segmentId (replicas s ! i) then OK
            else state (replicas s ! j))
      else (if j = i then FAILED else state (replicas s ! j)))"
  by (cases "j = i") (simp_all add: finishTask_def Let_def split: GrdResult.splits)

lemmas finishTask_simps = finishTask_tasks finishTask_notStarted finishTask_activeRequests
  finishTask_length finishTask_runningSet finishTask_replayed finishTask_segmentId
  finishTask_backupId finishTask_state

lemma startTask_tasks: "tasks (startTask k j s) = (tasks s)[k := Some j]"
  by (simp add: startTask_def)
lemma startTask_notStarted: "notStarted (startTask k j s) = notStarted s"
  by (simp add: startTask_def)
lemma startTask_activeRequests: "activeRequests (startTask k j s) = activeRequests s"
  by (simp add: startTask_def)
lemma startTask_length: "length (replicas (startTask k j s)) = length (replicas s)"
  by (simp add: startTask_def)
lemma startTask_runningSet:
  "runningSet (startTask k j s) = insert (segmentId (replicas s ! j)) (runningSet s)"
  by (simp add: startTask_def)
lemma startTask_replayed: "replayed (startTask k j s) = replayed s"
  by (simp add: startTask_def)
lemma startTask_segmentId:
  "i < length (replicas s) \<Longrightarrow>
   segmentId (replicas (startTask k j s) ! i) = segmentId (replicas s ! i)"
  by (cases "i = j") (simp_all add: startTask_def)
lemma startTask_backupId:
  "i < length (replicas s) \<Longrightarrow>
   backupId (replicas (startTask k j s) ! i) = backupId (replicas s ! i)"
  by (cases "i = j") (simp_all add: startTask_def)
lemma startTask_state:
  "i < length (replicas s) \<Longrightarrow>
   state (replicas (startTask k j s) ! i) = (if i = j then WAITING else state (replicas s ! i))"
  by (cases "i = j") (simp_all add: startTask_def)

lemmas startTask_simps = startTask_tasks startTask_notStarted startTask_activeRequests
  startTask_length startTask_runningSet startTask_replayed startTask_segmentId
  startTask_backupId startTask_state

subsection \<open>Finishing a task preserves the core invariants\<close>

lemma finishTask_state_other:
  assumes "slotsOK s" "waitingDistinct (replicas s)" "k < 4" "tasks s ! k = Some i"
    and "j < length (replicas s)" "state (replicas s ! j) = WAITING" "j \<noteq> i"
  shows "state (replicas (finishTask grd k i s) ! j) = WAITING"
proof -
  have i: "i < length (replicas s)" "state (replicas s ! i) = WAITING"
    using assms(1,3,4) unfolding slotsOK_def by blast+
  have "segmentId (replicas s ! j) \<noteq> segmentId (replicas s ! i)"
    using assms(2,5,6,7) i unfolding waitingDistinct_def by blast
  then show ?thesis using assms(5,6,7) by (simp add: finishTask_state)
qed

lemma finishTask_state_waiting:
  assumes "slotsOK s" "k < 4" "tasks s ! k = Some i"
    and "j < length (replicas s)" "state (replicas (finishTask grd k i s) ! j) = WAITING"
  shows "state (replicas s ! j) = WAITING \<and> j \<noteq> i"
proof -
  have i: "i < length (replicas s)" "state (replicas s ! i) = WAITING"
    using assms(1,2,3) unfolding slotsOK_def by blast+
  show ?thesis using assms(4,5) i
    by (auto simp: finishTask_state split: if_splits)
qed

lemma finishTask_slotsOK:
  assumes "slotsOK s" "waitingDistinct (replicas s)" "k < 4" "tasks s ! k = Some i"
  shows "slotsOK (finishTask grd k i s)"
proof -
  let ?s' = "finishTask grd k i s"
  have len: "length (tasks s) = 4" using assms(1) by (simp add: slotsOK_def)
  have a: "\<And>k' i'. k' < 4 \<Longrightarrow> tasks s ! k' = Some i' \<Longrightarrow>
      i' < length (replicas s) \<and> state (replicas s ! i') = WAITING"
    using assms(1) unfolding slotsOK_def by blast
  have b: "\<And>k' k'' i'. k' < 4 \<Longrightarrow> k'' < 4 \<Longrightarrow> tasks s ! k' = Some i' \<Longrightarrow>
      tasks s ! k'' = Some i' \<Longrightarrow> k' = k''"
    using assms(1) unfolding slotsOK_def by blast
  have c: "\<And>j. j < length (replicas s) \<Longrightarrow> state (replicas s ! j) = WAITING \<Longrightarrow>
      \<exists>k'<4. tasks s ! k' = Some j"
    using assms(1) unfolding slotsOK_def by blast
  have t: "\<And>k'. k' < 4 \<Longrightarrow> tasks ?s' ! k' = (if k' = k then None else tasks s ! k')"
    using len by (simp add: finishTask_tasks nth_list_update)
  have 1: "length (tasks ?s') = 4" using len by (simp add: finishTask_tasks)
  have 2: "i' < length (replicas ?s') \<and> state (replicas ?s' ! i') = WAITING"
    if "k' < 4" "tasks ?s' ! k' = Some i'" for k' i'
  proof -
    have k': "k' \<noteq> k" "tasks s ! k' = Some i'" using that t by (auto split: if_splits)
    then have "i' \<noteq> i" using b[OF that(1) assms(3) k'(2)] assms(4) by auto
    then show ?thesis
      using a[OF that(1) k'(2)] finishTask_state_other[OF assms, of i' grd]
      by (simp add: finishTask_length)
  qed
  have 3: "k' = k''"
    if "k' < 4" "k'' < 4" "tasks ?s' ! k' = Some i'" "tasks ?s' ! k'' = Some i'" for k' k'' i'
    using that t b by (auto split: if_splits)
  have 4: "\<exists>k'<4. tasks ?s' ! k' = Some j"
    if "j < length (replicas ?s')" "state (replicas ?s' ! j) = WAITING" for j
  proof -
    have j: "j < length (replicas s)" using that(1) by (simp add: finishTask_length)
    have w: "state (replicas s ! j) = WAITING" "j \<noteq> i"
      using finishTask_state_waiting[OF assms(1,3,4) j that(2)] by simp_all
    obtain k' where k': "k' < 4" "tasks s ! k' = Some j" using c[OF j w(1)] by blast
    then have "k' \<noteq> k" using assms(4) w(2) by auto
    then show ?thesis using k' t by auto
  qed
  show ?thesis unfolding slotsOK_def using 1 2 3 4 by blast
qed


lemma finishTask_waitingDistinct:
  assumes "waitingDistinct (replicas s)"
    and i: "i < length (replicas s)" "state (replicas s ! i) = WAITING"
  shows "waitingDistinct (replicas (finishTask grd k i s))"
proof -
  have w: "state (replicas s ! j) = WAITING"
    if "j < length (replicas s)" "state (replicas (finishTask grd k i s) ! j) = WAITING" for j
    using that i by (auto simp: finishTask_state split: if_splits)
  show ?thesis
    unfolding waitingDistinct_def
  proof (intro allI impI)
    fix a b
    assume ab: "a < length (replicas (finishTask grd k i s))"
      "b < length (replicas (finishTask grd k i s))"
      "state (replicas (finishTask grd k i s) ! a) = WAITING"
      "state (replicas (finishTask grd k i s) ! b) = WAITING"
      "segmentId (replicas (finishTask grd k i s) ! a) =
       segmentId (replicas (finishTask grd k i s) ! b)"
    then have "a < length (replicas s)" "b < length (replicas s)"
      by (simp_all add: finishTask_length)
    moreover from this have "state (replicas s ! a) = WAITING" "state (replicas s ! b) = WAITING"
      "segmentId (replicas s ! a) = segmentId (replicas s ! b)"
      using ab w by (simp_all add: finishTask_segmentId)
    ultimately show "a = b" using assms(1) unfolding waitingDistinct_def by blast
  qed
qed

lemma finishTask_WAITING_iff:
  assumes "waitingDistinct (replicas s)"
    and i: "i < length (replicas s)" "state (replicas s ! i) = WAITING"
    and j: "j < length (replicas s)"
  shows "state (replicas (finishTask grd k i s) ! j) = WAITING \<longleftrightarrow>
         state (replicas s ! j) = WAITING \<and> j \<noteq> i"
proof (cases "j = i")
  case True
  then show ?thesis using i by (simp add: finishTask_state)
next
  case False
  have "state (replicas s ! j) = WAITING \<Longrightarrow>
        segmentId (replicas s ! j) \<noteq> segmentId (replicas s ! i)"
    using assms False unfolding waitingDistinct_def by blast
  then show ?thesis using False j by (auto simp: finishTask_state)
qed

lemma finishTask_runningOK:
  assumes "runningOK s" "waitingDistinct (replicas s)"
    and i: "i < length (replicas s)" "state (replicas s ! i) = WAITING"
  shows "runningOK (finishTask grd k i s)"
proof -
  have d: "segmentId (replicas s ! j) = segmentId (replicas s ! i) \<longleftrightarrow> j = i"
    if "j < length (replicas s)" "state (replicas s ! j) = WAITING" for j
    using assms(2) i that unfolding waitingDistinct_def by blast
  have "runningSet s - {segmentId (replicas s ! i)} =
        {seg. \<exists>j<length (replicas s). (state (replicas s ! j) = WAITING \<and> j \<noteq> i) \<and>
               segmentId (replicas s ! j) = seg}"
    using assms(1) d unfolding runningOK_def by auto
  also have "\<dots> = {seg. \<exists>j<length (replicas (finishTask grd k i s)).
        state (replicas (finishTask grd k i s) ! j) = WAITING \<and>
        segmentId (replicas (finishTask grd k i s) ! j) = seg}"
    using finishTask_WAITING_iff[OF assms(2) i, of _ grd k]
    by (simp add: finishTask_length finishTask_segmentId cong: conj_cong)
  finally show ?thesis unfolding runningOK_def by (simp add: finishTask_runningSet)
qed

lemma finishTask_NOT_STARTED:
  assumes i: "i < length (replicas s)" "state (replicas s ! i) = WAITING"
    and j: "j < length (replicas s)"
  shows "state (replicas (finishTask grd k i s) ! j) = NOT_STARTED \<longleftrightarrow>
         state (replicas s ! j) = NOT_STARTED \<and>
         \<not> (grd i = Replayed \<and> segmentId (replicas s ! j) = segmentId (replicas s ! i))"
  using assms by (auto simp: finishTask_state)

lemma finishTask_cursorOK:
  assumes "cursorOK s"
    and i: "i < length (replicas s)" "state (replicas s ! i) = WAITING"
  shows "cursorOK (finishTask grd k i s)"
  using assms unfolding cursorOK_def
  by (simp add: finishTask_notStarted finishTask_length finishTask_NOT_STARTED)

lemma finishTask_okUniform:
  assumes "okUniform (replicas s)"
    and i: "i < length (replicas s)" "state (replicas s ! i) = WAITING"
  shows "okUniform (replicas (finishTask grd k i s))"
proof -
  have u: "\<And>a b. a < length (replicas s) \<Longrightarrow> b < length (replicas s) \<Longrightarrow>
     segmentId (replicas s ! a) = segmentId (replicas s ! b) \<Longrightarrow> state (replicas s ! a) = OK \<Longrightarrow>
     state (replicas s ! b) = OK"
    using assms(1) unfolding okUniform_def by blast
  show ?thesis
    unfolding okUniform_def
  proof (intro allI impI)
    fix a b
    assume ab: "a < length (replicas (finishTask grd k i s))"
      "b < length (replicas (finishTask grd k i s))"
      "segmentId (replicas (finishTask grd k i s) ! a) =
       segmentId (replicas (finishTask grd k i s) ! b)"
      "state (replicas (finishTask grd k i s) ! a) = OK"
    then have l: "a < length (replicas s)" "b < length (replicas s)"
      by (simp_all add: finishTask_length)
    then have e: "segmentId (replicas s ! a) = segmentId (replicas s ! b)"
      using ab(3) by (simp add: finishTask_segmentId)
    show "state (replicas (finishTask grd k i s) ! b) = OK"
    proof (cases "grd i = Replayed")
      case True
      then show ?thesis using ab(4) l e u[OF l e] by (auto simp: finishTask_state split: if_splits)
    next
      case False
      then have "a \<noteq> i" "state (replicas s ! a) = OK"
        using ab(4) l by (auto simp: finishTask_state split: if_splits)
      then have "state (replicas s ! b) = OK" using u[OF l e] by simp
      then show ?thesis using False i l by (auto simp: finishTask_state)
    qed
  qed
qed

lemma finishTask_failedHonest:
  assumes "failedHonest grd (replicas s)"
    and i: "i < length (replicas s)" "state (replicas s ! i) = WAITING"
  shows "failedHonest grd (replicas (finishTask grd k i s))"
  using assms unfolding failedHonest_def
  by (auto simp: finishTask_length finishTask_state split: if_splits)

lemma finishTask_OK_iff:
  assumes i: "i < length (replicas s)" "state (replicas s ! i) = WAITING"
    and j: "j < length (replicas s)"
  shows "state (replicas (finishTask grd k i s) ! j) = OK \<longleftrightarrow>
         state (replicas s ! j) = OK \<or>
         (grd i = Replayed \<and> segmentId (replicas s ! j) = segmentId (replicas s ! i))"
  using assms by (auto simp: finishTask_state)

lemma finishTask_replayedOK:
  assumes "replayedOK s" "okUniform (replicas s)"
    and i: "i < length (replicas s)" "state (replicas s ! i) = WAITING"
  shows "replayedOK (finishTask grd k i s)"
proof -
  let ?okSegs = "\<lambda>s. {seg. \<exists>j<length (replicas s). state (replicas s ! j) = OK \<and>
               segmentId (replicas s ! j) = seg}"
  have r: "distinct (replayed s)" "set (replayed s) = ?okSegs s"
    using assms(1) unfolding replayedOK_def by simp_all
  have fresh: "segmentId (replicas s ! i) \<notin> ?okSegs s"
  proof
    assume "segmentId (replicas s ! i) \<in> ?okSegs s"
    then obtain j where "j < length (replicas s)" "state (replicas s ! j) = OK"
      "segmentId (replicas s ! j) = segmentId (replicas s ! i)" by blast
    then have "state (replicas s ! i) = OK"
      using assms(2) i(1) unfolding okUniform_def by blast
    then show False using i(2) by simp
  qed
  have new: "?okSegs (finishTask grd k i s) =
      (if grd i = Replayed then insert (segmentId (replicas s ! i)) (?okSegs s) else ?okSegs s)"
    using i by (auto simp: finishTask_length finishTask_segmentId finishTask_OK_iff[OF i])
  show ?thesis
    unfolding replayedOK_def using r fresh new
    by (simp add: finishTask_replayed)
qed

lemma slotsOK_task:
  "slotsOK s \<Longrightarrow> k < 4 \<Longrightarrow> tasks s ! k = Some i \<Longrightarrow>
   i < length (replicas s) \<and> state (replicas s ! i) = WAITING"
  unfolding slotsOK_def by blast

lemma finishTask_coreInv:
  assumes "coreInv grd s" "k < 4" "tasks s ! k = Some i"
  shows "coreInv grd (finishTask grd k i s)"
proof -
  have i: "i < length (replicas s)" "state (replicas s ! i) = WAITING"
    using slotsOK_task[OF _ assms(2,3)] assms(1) by (simp_all add: coreInv_def)
  show ?thesis
    using assms i unfolding coreInv_def
    by (simp add: finishTask_slotsOK finishTask_waitingDistinct finishTask_runningOK
        finishTask_cursorOK finishTask_okUniform finishTask_failedHonest finishTask_replayedOK)
qed


subsection \<open>The cursor and the search\<close>

lemma advanceNotStarted_ge: "n \<le> advanceNotStarted rs n"
proof (induction rs n rule: advanceNotStarted.induct)
  case (1 rs i)
  show ?case
    using 1 by (subst advanceNotStarted.simps) (auto simp: Suc_leD)
qed

lemma advanceNotStarted_le: "n \<le> length rs \<Longrightarrow> advanceNotStarted rs n \<le> length rs"
proof (induction rs n rule: advanceNotStarted.induct)
  case (1 rs i)
  show ?case
    using 1 by (subst advanceNotStarted.simps) auto
qed

lemma advanceNotStarted_passed:
  "n \<le> i \<Longrightarrow> i < advanceNotStarted rs n \<Longrightarrow> state (rs ! i) \<noteq> NOT_STARTED"
proof (induction rs n rule: advanceNotStarted.induct)
  case (1 rs n)
  show ?case
  proof (cases "n < length rs \<and> state (rs ! n) \<noteq> NOT_STARTED")
    case True
    then have e: "advanceNotStarted rs n = advanceNotStarted rs (Suc n)"
      by (subst advanceNotStarted.simps) simp
    show ?thesis
    proof (cases "i = n")
      case True
      then show ?thesis using \<open>n < length rs \<and> state (rs ! n) \<noteq> NOT_STARTED\<close> by simp
    next
      case False
      then have "Suc n \<le> i" using "1.prems"(1) by simp
      then show ?thesis using 1 True e by simp
    qed
  next
    case False
    then have "advanceNotStarted rs n = n" by (subst advanceNotStarted.simps) auto
    then show ?thesis using "1.prems" by simp
  qed
qed

lemma findCandidate_Some:
  "findCandidate rs run n = Some j \<Longrightarrow>
   n \<le> j \<and> j < length rs \<and> state (rs ! j) = NOT_STARTED \<and> segmentId (rs ! j) \<notin> run"
proof (induction rs run n rule: findCandidate.induct)
  case (1 rs run i)
  from "1.prems" show ?case
    by (subst (asm) findCandidate.simps) (auto split: if_splits dest!: 1(1) simp: Suc_leD)
qed

lemma findCandidate_None:
  "findCandidate rs run n = None \<Longrightarrow> n \<le> j \<Longrightarrow> j < length rs \<Longrightarrow>
   state (rs ! j) \<noteq> NOT_STARTED \<or> segmentId (rs ! j) \<in> run"
proof (induction rs run n rule: findCandidate.induct)
  case (1 rs run i)
  have c: "state (rs ! i) \<noteq> NOT_STARTED \<or> segmentId (rs ! i) \<in> run"
    "findCandidate rs run (Suc i) = None"
    using "1.prems" by (subst (asm) findCandidate.simps; auto split: if_splits)+
  show ?case
  proof (cases "j = i")
    case True
    then show ?thesis using c(1) by simp
  next
    case False
    then have "Suc i \<le> j" using "1.prems" by simp
    then show ?thesis using 1 c by auto
  qed
qed

lemma skipRunning_ge: "n \<le> skipRunning rs run n"
proof (induction rs run n rule: skipRunning.induct)
  case (1 rs run i)
  show ?case using 1 by (subst skipRunning.simps) (auto simp: Suc_leD)
qed

lemma skipRunning_le: "n \<le> length rs \<Longrightarrow> skipRunning rs run n \<le> length rs"
proof (induction rs run n rule: skipRunning.induct)
  case (1 rs run i)
  show ?case using 1 by (subst skipRunning.simps) auto
qed

lemma skipRunning_passed:
  "n \<le> i \<Longrightarrow> i < skipRunning rs run n \<Longrightarrow> segmentId (rs ! i) \<in> run"
proof (induction rs run n rule: skipRunning.induct)
  case (1 rs run n)
  show ?case
  proof (cases "n < length rs \<and> segmentId (rs ! n) \<in> run")
    case True
    then have e: "skipRunning rs run n = skipRunning rs run (Suc n)"
      by (subst skipRunning.simps) simp
    show ?thesis
    proof (cases "i = n")
      case True
      then show ?thesis using \<open>n < length rs \<and> segmentId (rs ! n) \<in> run\<close> by simp
    next
      case False
      then have "Suc n \<le> i" using "1.prems"(1) by simp
      then show ?thesis using 1 True e by simp
    qed
  next
    case False
    then have "skipRunning rs run n = n" by (subst skipRunning.simps) auto
    then show ?thesis using "1.prems" by simp
  qed
qed

lemma skipRunning_stop:
  "skipRunning rs run n < length rs \<Longrightarrow> segmentId (rs ! skipRunning rs run n) \<notin> run"
proof (induction rs run n rule: skipRunning.induct)
  case (1 rs run n)
  show ?case
  proof (cases "n < length rs \<and> segmentId (rs ! n) \<in> run")
    case True
    then have e: "skipRunning rs run n = skipRunning rs run (Suc n)"
      by (subst skipRunning.simps) simp
    then show ?thesis using 1 True by simp
  next
    case False
    then have e: "skipRunning rs run n = n" by (subst skipRunning.simps) auto
    then show ?thesis using "1.prems" False by simp
  qed
qed


subsection \<open>Starting a task preserves the core invariants\<close>

lemma runningOK_waiting:
  "runningOK s \<Longrightarrow> i < length (replicas s) \<Longrightarrow> state (replicas s ! i) = WAITING \<Longrightarrow>
   segmentId (replicas s ! i) \<in> runningSet s"
  unfolding runningOK_def by blast

lemma startTask_slotsOK:
  assumes "slotsOK s" "k < 4" "tasks s ! k = None"
    and j: "j < length (replicas s)" "state (replicas s ! j) = NOT_STARTED"
  shows "slotsOK (startTask k j s)"
proof -
  let ?s' = "startTask k j s"
  have len: "length (tasks s) = 4" using assms(1) by (simp add: slotsOK_def)
  have a: "\<And>k' i'. k' < 4 \<Longrightarrow> tasks s ! k' = Some i' \<Longrightarrow>
      i' < length (replicas s) \<and> state (replicas s ! i') = WAITING"
    using assms(1) unfolding slotsOK_def by blast
  have b: "\<And>k' k'' i'. k' < 4 \<Longrightarrow> k'' < 4 \<Longrightarrow> tasks s ! k' = Some i' \<Longrightarrow>
      tasks s ! k'' = Some i' \<Longrightarrow> k' = k''"
    using assms(1) unfolding slotsOK_def by blast
  have c: "\<And>i. i < length (replicas s) \<Longrightarrow> state (replicas s ! i) = WAITING \<Longrightarrow>
      \<exists>k'<4. tasks s ! k' = Some i"
    using assms(1) unfolding slotsOK_def by blast
  have t: "\<And>k'. k' < 4 \<Longrightarrow> tasks ?s' ! k' = (if k' = k then Some j else tasks s ! k')"
    using len by (simp add: startTask_tasks nth_list_update)
  have nj: "tasks s ! k' \<noteq> Some j" if "k' < 4" for k'
    using a[OF that, of j] j by auto
  have 1: "length (tasks ?s') = 4" using len by (simp add: startTask_tasks)
  have 2: "i' < length (replicas ?s') \<and> state (replicas ?s' ! i') = WAITING"
    if "k' < 4" "tasks ?s' ! k' = Some i'" for k' i'
  proof (cases "k' = k")
    case True
    then show ?thesis using that t j by (simp add: startTask_length startTask_state)
  next
    case False
    then have "tasks s ! k' = Some i'" using that t by simp
    then show ?thesis using a[OF that(1)] by (simp add: startTask_length startTask_state)
  qed
  have 3: "k' = k''"
    if "k' < 4" "k'' < 4" "tasks ?s' ! k' = Some i'" "tasks ?s' ! k'' = Some i'" for k' k'' i'
    using that t b nj by (auto split: if_splits)
  have 4: "\<exists>k'<4. tasks ?s' ! k' = Some i"
    if "i < length (replicas ?s')" "state (replicas ?s' ! i) = WAITING" for i
  proof (cases "i = j")
    case True
    then show ?thesis using t assms(2) by auto
  next
    case False
    then have "i < length (replicas s)" "state (replicas s ! i) = WAITING"
      using that by (simp_all add: startTask_length startTask_state)
    then obtain k' where k': "k' < 4" "tasks s ! k' = Some i" using c by blast
    then have "k' \<noteq> k" using assms(3) by auto
    then show ?thesis using k' t by auto
  qed
  show ?thesis unfolding slotsOK_def using 1 2 3 4 by blast
qed

lemma startTask_waitingDistinct:
  assumes "waitingDistinct (replicas s)" "runningOK s"
    and j: "j < length (replicas s)" "segmentId (replicas s ! j) \<notin> runningSet s"
  shows "waitingDistinct (replicas (startTask k j s))"
proof -
  have d: "segmentId (replicas s ! a) \<noteq> segmentId (replicas s ! j)"
    if "a < length (replicas s)" "state (replicas s ! a) = WAITING" for a
    using runningOK_waiting[OF assms(2) that] j(2) by auto
  show ?thesis
    unfolding waitingDistinct_def
  proof (intro allI impI)
    fix a b
    assume ab: "a < length (replicas (startTask k j s))"
      "b < length (replicas (startTask k j s))"
      "state (replicas (startTask k j s) ! a) = WAITING"
      "state (replicas (startTask k j s) ! b) = WAITING"
      "segmentId (replicas (startTask k j s) ! a) = segmentId (replicas (startTask k j s) ! b)"
    then have l: "a < length (replicas s)" "b < length (replicas s)"
      by (simp_all add: startTask_length)
    then have e: "segmentId (replicas s ! a) = segmentId (replicas s ! b)"
      using ab(5) by (simp add: startTask_segmentId)
    have w: "a = j \<or> state (replicas s ! a) = WAITING" "b = j \<or> state (replicas s ! b) = WAITING"
      using ab(3,4) l by (auto simp: startTask_state split: if_splits)
    show "a = b"
    proof (cases "a = j \<or> b = j")
      case True
      then show ?thesis using d[OF l(1)] d[OF l(2)] w e by metis
    next
      case False
      then show ?thesis using w l e assms(1) unfolding waitingDistinct_def by blast
    qed
  qed
qed

lemma startTask_runningOK:
  assumes "runningOK s" and j: "j < length (replicas s)"
  shows "runningOK (startTask k j s)"
proof -
  have "insert (segmentId (replicas s ! j)) (runningSet s) =
        {seg. \<exists>i<length (replicas s). (i = j \<or> state (replicas s ! i) = WAITING) \<and>
               segmentId (replicas s ! i) = seg}"
    using assms unfolding runningOK_def by auto
  also have "\<dots> = {seg. \<exists>i<length (replicas (startTask k j s)).
        state (replicas (startTask k j s) ! i) = WAITING \<and>
        segmentId (replicas (startTask k j s) ! i) = seg}"
  proof -
    have "state (replicas (startTask k j s) ! i) = WAITING \<longleftrightarrow>
          (i = j \<or> state (replicas s ! i) = WAITING)" if "i < length (replicas s)" for i
      using that by (simp add: startTask_state)
    then show ?thesis
      by (simp add: startTask_length startTask_segmentId cong: conj_cong)
  qed
  finally show ?thesis unfolding runningOK_def by (simp add: startTask_runningSet)
qed

lemma startTask_cursorOK:
  assumes "cursorOK s"
  shows "cursorOK (startTask k j s)"
  using assms unfolding cursorOK_def
  by (auto simp: startTask_notStarted startTask_length startTask_state)

lemma startTask_okUniform:
  assumes "okUniform (replicas s)"
    and j: "j < length (replicas s)" "state (replicas s ! j) = NOT_STARTED"
  shows "okUniform (replicas (startTask k j s))"
proof -
  have u: "\<And>a b. a < length (replicas s) \<Longrightarrow> b < length (replicas s) \<Longrightarrow>
     segmentId (replicas s ! a) = segmentId (replicas s ! b) \<Longrightarrow> state (replicas s ! a) = OK \<Longrightarrow>
     state (replicas s ! b) = OK"
    using assms(1) unfolding okUniform_def by blast
  show ?thesis
    unfolding okUniform_def
  proof (intro allI impI)
    fix a b
    assume ab: "a < length (replicas (startTask k j s))"
      "b < length (replicas (startTask k j s))"
      "segmentId (replicas (startTask k j s) ! a) = segmentId (replicas (startTask k j s) ! b)"
      "state (replicas (startTask k j s) ! a) = OK"
    then have l: "a < length (replicas s)" "b < length (replicas s)"
      by (simp_all add: startTask_length)
    then have e: "segmentId (replicas s ! a) = segmentId (replicas s ! b)"
      using ab(3) by (simp add: startTask_segmentId)
    have "state (replicas s ! a) = OK"
      using ab(4) l by (auto simp: startTask_state split: if_splits)
    then have "state (replicas s ! b) = OK" using u[OF l e] by simp
    then show "state (replicas (startTask k j s) ! b) = OK"
      using j l by (auto simp: startTask_state)
  qed
qed

lemma startTask_failedHonest:
  assumes "failedHonest grd (replicas s)"
  shows "failedHonest grd (replicas (startTask k j s))"
  using assms unfolding failedHonest_def
  by (auto simp: startTask_length startTask_state split: if_splits)

lemma startTask_replayedOK:
  assumes "replayedOK s"
    and j: "j < length (replicas s)" "state (replicas s ! j) = NOT_STARTED"
  shows "replayedOK (startTask k j s)"
proof -
  have "state (replicas (startTask k j s) ! i) = OK \<longleftrightarrow> state (replicas s ! i) = OK"
    if "i < length (replicas s)" for i
    using that j by (auto simp: startTask_state)
  then show ?thesis
    using assms(1) unfolding replayedOK_def
    by (simp add: startTask_replayed startTask_length startTask_segmentId cong: conj_cong)
qed

lemma startTask_coreInv:
  assumes "coreInv grd s" "k < 4" "tasks s ! k = None"
    and j: "j < length (replicas s)" "state (replicas s ! j) = NOT_STARTED"
      "segmentId (replicas s ! j) \<notin> runningSet s"
  shows "coreInv grd (startTask k j s)"
  using assms unfolding coreInv_def
  by (simp add: startTask_slotsOK startTask_waitingDistinct startTask_runningOK
      startTask_cursorOK startTask_okUniform startTask_failedHonest startTask_replayedOK)

lemma advance_coreInv:
  assumes "coreInv grd s"
  shows "coreInv grd (s\<lparr>notStarted := advanceNotStarted (replicas s) (notStarted s)\<rparr>)"
proof -
  have "cursorOK (s\<lparr>notStarted := advanceNotStarted (replicas s) (notStarted s)\<rparr>)"
  proof -
    have c: "notStarted s \<le> length (replicas s)"
      "\<And>i. i < notStarted s \<Longrightarrow> state (replicas s ! i) \<noteq> NOT_STARTED"
      using assms unfolding coreInv_def cursorOK_def by auto
    have "state (replicas s ! i) \<noteq> NOT_STARTED"
      if "i < advanceNotStarted (replicas s) (notStarted s)" for i
    proof (cases "i < notStarted s")
      case True
      then show ?thesis using c(2) by simp
    next
      case False
      then show ?thesis using advanceNotStarted_passed[of "notStarted s" i "replicas s"] that
        by simp
    qed
    then show ?thesis unfolding cursorOK_def using advanceNotStarted_le[OF c(1)] by simp
  qed
  then show ?thesis
    using assms unfolding coreInv_def slotsOK_def runningOK_def replayedOK_def by simp
qed

lemma startNext_coreInv:
  assumes "coreInv grd s" "k < 4" "tasks s ! k = None"
  shows "coreInv grd (startNext k s)"
proof -
  let ?s' = "s\<lparr>notStarted := advanceNotStarted (replicas s) (notStarted s)\<rparr>"
  have c: "coreInv grd ?s'" by (rule advance_coreInv[OF assms(1)])
  have t: "tasks ?s' ! k = None" using assms(3) by simp
  show ?thesis
  proof (cases "findCandidate (replicas ?s') (runningSet ?s') (notStarted ?s')")
    case None
    have "coreInv grd (?s'\<lparr>activeRequests := activeRequests ?s' - 1\<rparr>)"
      using c unfolding coreInv_def slotsOK_def runningOK_def replayedOK_def cursorOK_def
      by simp
    then show ?thesis using None by (simp add: startNext_def Let_def)
  next
    case (Some j)
    have "coreInv grd (startTask k j ?s')"
      using startTask_coreInv[OF c assms(2) t] findCandidate_Some[OF Some] by blast
    then show ?thesis using Some by (simp add: startNext_def Let_def)
  qed
qed

subsection \<open>Counting the occupied slots\<close>

lemma filter_update_length:
  "k < length ts \<Longrightarrow>
   length (filter P (ts[k := x])) + (if P (ts ! k) then 1 else 0) =
   length (filter P ts) + (if P x then 1 else 0)"
proof (induction ts arbitrary: k)
  case Nil
  then show ?case by simp
next
  case (Cons t ts)
  show ?case
  proof (cases k)
    case 0
    then show ?thesis by simp
  next
    case (Suc n)
    then show ?thesis using Cons.IH[of n] Cons.prems by simp
  qed
qed

lemma occupied_update:
  "k < length ts \<Longrightarrow>
   occupied (ts[k := x]) + (if ts ! k \<noteq> None then 1 else 0) =
   occupied ts + (if x \<noteq> None then 1 else 0)"
  unfolding occupied_def by (rule filter_update_length)

lemma occupied_le: "occupied ts \<le> length ts"
  unfolding occupied_def by simp

lemma occupied_zero: "occupied ts = 0 \<Longrightarrow> k < length ts \<Longrightarrow> ts ! k = None"
  unfolding occupied_def by (auto simp: filter_empty_conv)

lemma startNext_tasks_cases:
  "tasks (startNext k s) = tasks s \<and> activeRequests (startNext k s) = activeRequests s - 1 \<or>
   (\<exists>j. tasks (startNext k s) = (tasks s)[k := Some j] \<and>
        activeRequests (startNext k s) = activeRequests s)"
  by (auto simp: startNext_def Let_def startTask_tasks startTask_activeRequests
      split: option.splits)

lemma step_activeOK:
  assumes "activeOK s" "length (tasks s) = 4" "k < 4" "tasks s ! k = Some i"
  shows "activeOK (startNext k (finishTask grd k i s))"
proof -
  let ?s1 = "finishTask grd k i s"
  have o1: "occupied (tasks ?s1) + 1 = occupied (tasks s)"
    using occupied_update[of k "tasks s" None] assms by (simp add: finishTask_tasks)
  have a1: "unat (activeRequests ?s1) = occupied (tasks ?s1) + 1"
    using assms(1) o1 by (simp add: activeOK_def finishTask_activeRequests)
  have k1: "tasks ?s1 ! k = None" "k < length (tasks ?s1)"
    using assms by (simp_all add: finishTask_tasks)
  consider
    (none) "tasks (startNext k ?s1) = tasks ?s1"
      "activeRequests (startNext k ?s1) = activeRequests ?s1 - 1"
    | (some) j where "tasks (startNext k ?s1) = (tasks ?s1)[k := Some j]"
      "activeRequests (startNext k ?s1) = activeRequests ?s1"
    using startNext_tasks_cases[of k ?s1] by blast
  then show ?thesis
  proof cases
    case none
    have "unat (activeRequests ?s1) \<noteq> 0" using a1 by simp
    then have "activeRequests ?s1 \<noteq> 0" by (simp only: unat_0_iff not_False_eq_True)
    then have "unat (activeRequests ?s1 - 1) = occupied (tasks ?s1)"
      using a1 by (simp add: unat_minus_one)
    then show ?thesis using none by (simp add: activeOK_def)
  next
    case some
    have "occupied ((tasks ?s1)[k := Some j]) = occupied (tasks ?s1) + 1"
      using occupied_update[of k "tasks ?s1" "Some j"] k1 by simp
    then show ?thesis using some a1 by (simp add: activeOK_def)
  qed
qed

subsection \<open>A slot is left empty only when nothing is uncovered\<close>

lemma step_coveredOK:
  assumes inv: "coreInv grd s" "coveredOK s" and k: "k < 4" "tasks s ! k = Some i"
  shows "coveredOK (startNext k (finishTask grd k i s))"
proof -
  let ?s1 = "finishTask grd k i s"
  let ?s1' = "?s1\<lparr>notStarted := advanceNotStarted (replicas ?s1) (notStarted ?s1)\<rparr>"
  have i: "i < length (replicas s)" "state (replicas s ! i) = WAITING"
    using slotsOK_task[OF _ k] inv(1) by (simp_all add: coreInv_def)
  have len: "length (tasks s) = 4" using inv(1) by (simp add: coreInv_def slotsOK_def)
  have c1: "coreInv grd ?s1" by (rule finishTask_coreInv[OF inv(1) k])
  have c1': "coreInv grd ?s1'" by (rule advance_coreInv[OF c1])
  have cur: "\<And>m. m < notStarted ?s1' \<Longrightarrow> state (replicas ?s1 ! m) \<noteq> NOT_STARTED"
    using c1' unfolding coreInv_def cursorOK_def by simp
  show ?thesis
  proof (cases "findCandidate (replicas ?s1') (runningSet ?s1') (notStarted ?s1')")
    case None
    have "\<not> uncovered (?s1'\<lparr>activeRequests := activeRequests ?s1' - 1\<rparr>) m" for m
    proof
      assume u: "uncovered (?s1'\<lparr>activeRequests := activeRequests ?s1' - 1\<rparr>) m"
      then have m: "m < length (replicas ?s1)" "state (replicas ?s1 ! m) = NOT_STARTED"
        "segmentId (replicas ?s1 ! m) \<notin> runningSet ?s1"
        by (simp_all add: uncovered_def)
      then have "notStarted ?s1' \<le> m" using cur[of m] by (meson not_le)
      then show False using findCandidate_None[OF None, of m] m by simp
    qed
    then show ?thesis using None by (simp add: startNext_def Let_def coveredOK_def)
  next
    case (Some j)
    have j: "j < length (replicas s)" "state (replicas ?s1 ! j) = NOT_STARTED"
      "segmentId (replicas ?s1 ! j) \<notin> runningSet ?s1"
      using findCandidate_Some[OF Some] by (simp_all add: finishTask_length)
    have s2: "startNext k ?s1 = startTask k j ?s1'"
      using Some by (simp add: startNext_def Let_def)
    show ?thesis
      unfolding coveredOK_def
    proof (intro impI allI)
      fix m
      assume "\<exists>k'<4. tasks (startNext k ?s1) ! k' = None"
      then obtain k' where k': "k' < 4" "tasks (startNext k ?s1) ! k' = None" by blast
      then have "k' \<noteq> k" "tasks s ! k' = None"
        using len k(1) by (auto simp: s2 startTask_tasks finishTask_tasks nth_list_update
            split: if_splits)
      then have cov: "\<And>m. \<not> uncovered s m" using inv(2) k'(1) unfolding coveredOK_def by blast
      have segj: "segmentId (replicas s ! j) = segmentId (replicas s ! i)"
      proof -
        have "state (replicas s ! j) = NOT_STARTED"
          using j(1,2) finishTask_NOT_STARTED[OF i j(1)] by simp
        then have "segmentId (replicas s ! j) \<in> runningSet s"
          using cov[of j] j(1) by (simp add: uncovered_def)
        then show ?thesis using j(1,3) by (simp add: finishTask_segmentId finishTask_runningSet)
      qed
      show "\<not> uncovered (startNext k ?s1) m"
      proof
        assume "uncovered (startNext k ?s1) m"
        then have m: "m < length (replicas s)"
          "state (replicas (startTask k j ?s1') ! m) = NOT_STARTED"
          "segmentId (replicas (startTask k j ?s1') ! m) \<notin> runningSet (startTask k j ?s1')"
          by (simp_all add: uncovered_def s2 startTask_length finishTask_length)
        have m1: "state (replicas ?s1 ! m) = NOT_STARTED"
          using m(1,2) by (auto simp: startTask_state finishTask_length split: if_splits)
        then have ms: "state (replicas s ! m) = NOT_STARTED"
          using finishTask_NOT_STARTED[OF i m(1)] by simp
        then have in_run: "segmentId (replicas s ! m) \<in> runningSet s"
          using cov[of m] m(1) by (simp add: uncovered_def)
        have "segmentId (replicas s ! m) \<noteq> segmentId (replicas s ! j)"
          "segmentId (replicas s ! m) \<notin> runningSet s - {segmentId (replicas s ! i)}"
          using m(1,3) j(1)
          by (simp_all add: startTask_segmentId startTask_runningSet finishTask_length
              finishTask_segmentId finishTask_runningSet)
        then show False using in_run segj by simp
      qed
    qed
  qed
qed

lemma pollTask_recoveryInv:
  assumes "recoveryInv grd s" "k < 4"
  shows "recoveryInv grd (pollTask grd ready k s)"
proof (cases "tasks s ! k")
  case None
  then show ?thesis using assms by (simp add: pollTask_def)
next
  case (Some i)
  show ?thesis
  proof (cases ready)
    case False
    then show ?thesis using assms Some by (simp add: pollTask_def)
  next
    case True
    have c: "coreInv grd s" "activeOK s" "coveredOK s"
      using assms(1) by (simp_all add: recoveryInv_def)
    have len: "length (tasks s) = 4" using c(1) by (simp add: coreInv_def slotsOK_def)
    have "coreInv grd (finishTask grd k i s)" by (rule finishTask_coreInv[OF c(1) assms(2) Some])
    moreover have "tasks (finishTask grd k i s) ! k = None"
      using len assms(2) by (simp add: finishTask_tasks)
    ultimately have "coreInv grd (startNext k (finishTask grd k i s))"
      using startNext_coreInv assms(2) by blast
    then show ?thesis
      using step_activeOK[OF c(2) len assms(2) Some] step_coveredOK[OF c(1,3) assms(2) Some]
        True Some
      by (simp add: pollTask_def recoveryInv_def)
  qed
qed

lemma activeRequests_update_coreInv:
  "coreInv grd s \<Longrightarrow> coreInv grd (s\<lparr>activeRequests := a\<rparr>)"
  unfolding coreInv_def slotsOK_def runningOK_def replayedOK_def cursorOK_def by simp

lemma initial_step:
  assumes c: "coreInv grd s" and a: "activeOK s" and i: "initialOK (k # ks) it s"
    and lt: "it \<noteq> length (replicas s)"
  defines "s' \<equiv> (startTask k it s)\<lparr>activeRequests := activeRequests s + 1\<rparr>"
  shows "coreInv grd s' \<and> activeOK s' \<and>
         initialOK ks (skipRunning (replicas s') (runningSet s') (Suc it)) s'"
proof -
  have k: "k < 4" "tasks s ! k = None" "k \<notin> set ks" "distinct ks"
    using i by (simp_all add: initialOK_def)
  have it: "it < length (replicas s)" "state (replicas s ! it) = NOT_STARTED"
    "segmentId (replicas s ! it) \<notin> runningSet s"
    using i lt by (simp_all add: initialOK_def)
  have len: "length (tasks s) = 4" using c by (simp add: coreInv_def slotsOK_def)
  have rs': "length (replicas s') = length (replicas s)"
    "\<And>j. j < length (replicas s) \<Longrightarrow> segmentId (replicas s' ! j) = segmentId (replicas s ! j)"
    "\<And>j. j < length (replicas s) \<Longrightarrow>
       state (replicas s' ! j) = (if j = it then WAITING else state (replicas s ! j))"
    "runningSet s' = insert (segmentId (replicas s ! it)) (runningSet s)"
    "tasks s' = (tasks s)[k := Some it]"
    by (simp_all add: s'_def startTask_simps)
  have 1: "coreInv grd s'"
    unfolding s'_def
    by (rule activeRequests_update_coreInv) (rule startTask_coreInv[OF c k(1,2) it])
  have 2: "activeOK s'"
  proof -
    have o: "occupied (tasks s') = occupied (tasks s) + 1"
      using occupied_update[of k "tasks s" "Some it"] k len by (simp add: rs')
    have "occupied (tasks s) \<le> 4" using occupied_le[of "tasks s"] len by simp
    then have "unat (activeRequests s) + unat (1 :: 32 word) < 2 ^ LENGTH(32)"
      using a by (simp add: activeOK_def)
    then have "unat (activeRequests s + 1) = unat (activeRequests s) + 1"
      by (simp add: unat_add_lem[THEN iffD1])
    then show ?thesis using a o by (simp add: activeOK_def s'_def)
  qed
  let ?it' = "skipRunning (replicas s') (runningSet s') (Suc it)"
  have ge: "Suc it \<le> ?it'" by (rule skipRunning_ge)
  have le: "?it' \<le> length (replicas s)"
    using skipRunning_le[of "Suc it" "replicas s'" "runningSet s'"] it(1) by (simp add: rs')
  have 3: "initialOK ks ?it' s'"
    unfolding initialOK_def
  proof (intro conjI ballI allI impI)
    show "distinct ks" by (rule k(4))
  next
    fix k' assume "k' \<in> set ks"
    then have "k' < 4" "tasks s ! k' = None" "k' \<noteq> k" using i k(3) by (auto simp: initialOK_def)
    then show "k' < 4" "tasks s' ! k' = None" by (simp_all add: rs')
  next
    fix k' assume "k' < 4" "k' \<notin> set ks"
    then show "tasks s' ! k' \<noteq> None"
      using i len by (cases "k' = k") (auto simp: rs' initialOK_def)
  next
    show "?it' \<le> length (replicas s')" using le by (simp add: rs')
  next
    fix j assume "j < length (replicas s')" "?it' \<le> j"
    then show "state (replicas s' ! j) = NOT_STARTED"
      using i ge by (auto simp: rs' initialOK_def)
  next
    fix j assume j: "j < ?it'"
    then have jl: "j < length (replicas s)" using le by simp
    consider "j < it" | "j = it" | "Suc it \<le> j" by linarith
    then show "state (replicas s' ! j) = WAITING \<or> segmentId (replicas s' ! j) \<in> runningSet s'"
    proof cases
      case 1
      then show ?thesis using i jl by (auto simp: rs' initialOK_def)
    next
      case 2
      then show ?thesis using jl by (simp add: rs')
    next
      case 3
      then show ?thesis using skipRunning_passed[OF 3 j] by simp
    qed
  next
    assume "?it' < length (replicas s')"
    then show "segmentId (replicas s' ! ?it') \<notin> runningSet s'"
      by (rule skipRunning_stop)
  qed
  show ?thesis using 1 2 3 by simp
qed

lemma startInitialTasks_recoveryInv:
  "coreInv grd s \<Longrightarrow> activeOK s \<Longrightarrow> initialOK ks it s \<Longrightarrow>
   recoveryInv grd (startInitialTasks ks it s)"
proof (induction ks arbitrary: it s)
  case Nil
  then have "coveredOK s" by (auto simp: coveredOK_def initialOK_def)
  then show ?case using Nil by (simp add: recoveryInv_def)
next
  case (Cons k ks)
  have k: "tasks s ! k = None" using Cons.prems(3) by (simp add: initialOK_def)
  show ?case
  proof (cases "it = length (replicas s)")
    case True
    have "\<not> uncovered s i" for i
      using Cons.prems(3) True by (auto simp: uncovered_def initialOK_def)
    then show ?thesis using Cons.prems True k by (simp add: recoveryInv_def coveredOK_def)
  next
    case False
    show ?thesis
      using initial_step[OF Cons.prems False] Cons.IH k False
      by (simp add: Let_def)
  qed
qed

lemma initRecovery_ok:
  "coreInv grd (initRecovery (mkReplicas ws)) \<and> activeOK (initRecovery (mkReplicas ws)) \<and>
   initialOK [0, 1, 2, 3] 0 (initRecovery (mkReplicas ws))"
proof -
  have ln: "length (mkReplicas ws) = length ws" by (simp add: mkReplicas_def)
  have st: "\<And>i. i < length ws \<Longrightarrow> state (mkReplicas ws ! i) = NOT_STARTED"
    by (simp add: mkReplicas_def mkReplica_def)
  have tk: "\<And>k. k < 4 \<Longrightarrow> [None, None, None, None :: nat option] ! k = None"
    by (auto simp: nth_Cons' )
  have "coreInv grd (initRecovery (mkReplicas ws))"
    unfolding coreInv_def slotsOK_def waitingDistinct_def runningOK_def cursorOK_def
      okUniform_def failedHonest_def replayedOK_def
    using st tk by (auto simp: initRecovery_def ln)
  moreover have "activeOK (initRecovery (mkReplicas ws))"
    by (simp add: activeOK_def initRecovery_def occupied_def)
  moreover have "initialOK [0, 1, 2, 3] 0 (initRecovery (mkReplicas ws))"
    unfolding initialOK_def using st tk
    by (auto simp: initRecovery_def ln)
  ultimately show ?thesis by simp
qed

lemma initial_recoveryInv:
  "recoveryInv grd (startInitialTasks [0, 1, 2, 3] 0 (initRecovery (mkReplicas ws)))"
  using initRecovery_ok[of grd ws] startInitialTasks_recoveryInv by blast

lemma sum_list_map_le:
  fixes g :: "'a \<Rightarrow> nat"
  shows "length ys = length xs \<Longrightarrow> (\<And>j. j < length xs \<Longrightarrow> g (ys ! j) \<le> g (xs ! j)) \<Longrightarrow>
   sum_list (map g ys) \<le> sum_list (map g xs)"
proof (induction ys xs rule: list_induct2)
  case Nil
  then show ?case by simp
next
  case (Cons y ys x xs)
  have "g y \<le> g x" using Cons.prems[of 0] by simp
  moreover have "sum_list (map g ys) \<le> sum_list (map g xs)"
    using Cons.IH Cons.prems[of "Suc j" for j] by simp
  ultimately show ?case by simp
qed

lemma sum_list_map_less:
  fixes g :: "'a \<Rightarrow> nat"
  shows "length ys = length xs \<Longrightarrow> (\<And>j. j < length xs \<Longrightarrow> g (ys ! j) \<le> g (xs ! j)) \<Longrightarrow>
   i < length xs \<Longrightarrow> g (ys ! i) < g (xs ! i) \<Longrightarrow>
   sum_list (map g ys) < sum_list (map g xs)"
proof (induction ys xs arbitrary: i rule: list_induct2)
  case Nil
  then show ?case by simp
next
  case (Cons y ys x xs)
  have hd: "g y \<le> g x" using Cons.prems(1)[of 0] by simp
  have tl: "\<And>j. j < length xs \<Longrightarrow> g (ys ! j) \<le> g (xs ! j)"
    using Cons.prems(1)[of "Suc j" for j] by simp
  show ?case
  proof (cases i)
    case 0
    then have "g y < g x" using Cons.prems(3) by simp
    moreover have "sum_list (map g ys) \<le> sum_list (map g xs)"
      using sum_list_map_le[OF Cons.hyps tl] by simp
    ultimately show ?thesis by simp
  next
    case (Suc n)
    then have "sum_list (map g ys) < sum_list (map g xs)"
      using Cons.IH[OF tl, of n] Cons.prems(2,3) by simp
    then show ?thesis using hd by simp
  qed
qed

lemma finishTask_workLeft:
  assumes i: "i < length (replicas s)" "state (replicas s ! i) = WAITING"
  shows "workLeft (finishTask grd k i s) < workLeft s"
  unfolding workLeft_def
proof (rule sum_list_map_less[where i = i])
  show "length (replicas (finishTask grd k i s)) = length (replicas s)"
    by (rule finishTask_length)
  show "weight (state (replicas (finishTask grd k i s) ! j)) \<le> weight (state (replicas s ! j))"
    if "j < length (replicas s)" for j
    using that by (simp add: finishTask_state)
  show "i < length (replicas s)" by (rule i(1))
  show "weight (state (replicas (finishTask grd k i s) ! i)) < weight (state (replicas s ! i))"
    using i by (simp add: finishTask_state)
qed

lemma startTask_workLeft:
  assumes j: "j < length (replicas s)" "state (replicas s ! j) = NOT_STARTED"
  shows "workLeft (startTask k j s) < workLeft s"
  unfolding workLeft_def
proof (rule sum_list_map_less[where i = j])
  show "length (replicas (startTask k j s)) = length (replicas s)"
    by (rule startTask_length)
  show "weight (state (replicas (startTask k j s) ! i)) \<le> weight (state (replicas s ! i))"
    if "i < length (replicas s)" for i
    using that j by (simp add: startTask_state)
  show "j < length (replicas s)" by (rule j(1))
  show "weight (state (replicas (startTask k j s) ! j)) < weight (state (replicas s ! j))"
    using j by (simp add: startTask_state)
qed

lemma startNext_workLeft: "workLeft (startNext k s) \<le> workLeft s"
proof (cases "findCandidate (replicas s) (runningSet s)
    (advanceNotStarted (replicas s) (notStarted s))")
  case None
  then show ?thesis by (simp add: startNext_def Let_def workLeft_def)
next
  case (Some j)
  let ?s' = "s\<lparr>notStarted := advanceNotStarted (replicas s) (notStarted s)\<rparr>"
  have "workLeft (startTask k j ?s') < workLeft ?s'"
    using findCandidate_Some[OF Some] by (intro startTask_workLeft) simp_all
  moreover have "workLeft ?s' = workLeft s" by (simp add: workLeft_def)
  ultimately show ?thesis using Some by (simp add: startNext_def Let_def)
qed

lemma pollTask_workLeft_le:
  assumes "slotsOK s" "k < 4"
  shows "workLeft (pollTask grd ready k s) \<le> workLeft s"
proof (cases "tasks s ! k")
  case None
  then show ?thesis by (simp add: pollTask_def)
next
  case (Some i)
  have "workLeft (startNext k (finishTask grd k i s)) \<le> workLeft (finishTask grd k i s)"
    by (rule startNext_workLeft)
  also have "\<dots> < workLeft s"
    using slotsOK_task[OF assms Some] by (intro finishTask_workLeft) simp_all
  finally show ?thesis using Some by (simp add: pollTask_def)
qed

lemma pollTask_workLeft_less:
  assumes "slotsOK s" "k < 4" "tasks s ! k \<noteq> None"
  shows "workLeft (pollTask grd True k s) < workLeft s"
proof -
  obtain i where Some: "tasks s ! k = Some i" using assms(3) by auto
  have "workLeft (startNext k (finishTask grd k i s)) \<le> workLeft (finishTask grd k i s)"
    by (rule startNext_workLeft)
  also have "\<dots> < workLeft s"
    using slotsOK_task[OF assms(1,2) Some] by (intro finishTask_workLeft) simp_all
  finally show ?thesis using Some by (simp add: pollTask_def)
qed

lemma startNext_tasks_other:
  "k' \<noteq> k \<Longrightarrow> tasks (startNext k s) ! k' = tasks s ! k'"
  by (simp add: startNext_def Let_def startTask_tasks split: option.splits)

lemma pollTask_tasks_other:
  "k' \<noteq> k \<Longrightarrow> tasks (pollTask grd ready k s) ! k' = tasks s ! k'"
  by (simp add: pollTask_def startNext_tasks_other finishTask_tasks split: option.splits)

lemma recoveryInv_slotsOK: "recoveryInv grd s \<Longrightarrow> slotsOK s"
  by (simp add: recoveryInv_def coreInv_def)

lemma pollTasks_recoveryInv:
  assumes "recoveryInv grd s"
  shows "recoveryInv grd (pollTasks grd ready s)"
  unfolding pollTasks_def
  by (intro pollTask_recoveryInv assms) simp_all

lemma pollTasks_workLeft:
  assumes inv: "recoveryInv grd s" and act: "activeRequests s \<noteq> 0"
  shows "workLeft (pollTasks grd (\<lambda>k. True) s) < workLeft s"
proof -
  define s1 where "s1 = pollTask grd True 0 s"
  define s2 where "s2 = pollTask grd True 1 s1"
  define s3 where "s3 = pollTask grd True 2 s2"
  define s4 where "s4 = pollTask grd True 3 s3"
  have i1: "recoveryInv grd s1" unfolding s1_def by (intro pollTask_recoveryInv inv) simp
  have i2: "recoveryInv grd s2" unfolding s2_def by (intro pollTask_recoveryInv i1) simp
  have i3: "recoveryInv grd s3" unfolding s3_def by (intro pollTask_recoveryInv i2) simp
  note so = recoveryInv_slotsOK[OF inv] recoveryInv_slotsOK[OF i1] recoveryInv_slotsOK[OF i2]
    recoveryInv_slotsOK[OF i3]
  have le1: "workLeft s1 \<le> workLeft s"
    unfolding s1_def by (rule pollTask_workLeft_le[OF so(1)]) simp
  have le2: "workLeft s2 \<le> workLeft s1"
    unfolding s2_def by (rule pollTask_workLeft_le[OF so(2)]) simp
  have le3: "workLeft s3 \<le> workLeft s2"
    unfolding s3_def by (rule pollTask_workLeft_le[OF so(3)]) simp
  have le4: "workLeft s4 \<le> workLeft s3"
    unfolding s4_def by (rule pollTask_workLeft_le[OF so(4)]) simp
  note le = le1 le2 le3 le4
  have "occupied (tasks s) \<noteq> 0"
    using inv act by (simp add: recoveryInv_def activeOK_def unat_0_iff[symmetric] del: unat_0_iff)
  then obtain t where "t \<in> set (tasks s)" "t \<noteq> None"
    by (auto simp: occupied_def filter_empty_conv)
  then obtain k where k: "k < 4" "tasks s ! k \<noteq> None"
    using so(1) by (auto simp: in_set_conv_nth slotsOK_def)
  then consider "k = 0" | "k = 1" | "k = 2" | "k = 3" by linarith
  then have "workLeft s4 < workLeft s"
  proof cases
    case 1
    then have "workLeft s1 < workLeft s"
      unfolding s1_def using k by (intro pollTask_workLeft_less[OF so(1)]) simp_all
    then show ?thesis using le by linarith
  next
    case 2
    then have "tasks s1 ! 1 \<noteq> None" using k by (simp add: s1_def pollTask_tasks_other)
    then have "workLeft s2 < workLeft s1"
      unfolding s2_def by (intro pollTask_workLeft_less[OF so(2)]) simp_all
    then show ?thesis using le by linarith
  next
    case 3
    then have "tasks s2 ! 2 \<noteq> None" using k by (simp add: s1_def s2_def pollTask_tasks_other)
    then have "workLeft s3 < workLeft s2"
      unfolding s3_def by (intro pollTask_workLeft_less[OF so(3)]) simp_all
    then show ?thesis using le by linarith
  next
    case 4
    then have "tasks s3 ! 3 \<noteq> None"
      using k by (simp add: s1_def s2_def s3_def pollTask_tasks_other)
    then have "workLeft s4 < workLeft s3"
      unfolding s4_def by (intro pollTask_workLeft_less[OF so(4)]) simp_all
    then show ?thesis using le by linarith
  qed
  then show ?thesis by (simp add: pollTasks_def s1_def s2_def s3_def s4_def)
qed

lemma finishTask_ids:
  "map segmentId (replicas (finishTask grd k i s)) = map segmentId (replicas s) \<and>
   map backupId (replicas (finishTask grd k i s)) = map backupId (replicas s)"
  by (auto intro!: nth_equalityI simp: finishTask_length finishTask_segmentId finishTask_backupId)

lemma startTask_ids:
  "map segmentId (replicas (startTask k j s)) = map segmentId (replicas s) \<and>
   map backupId (replicas (startTask k j s)) = map backupId (replicas s)"
  by (auto intro!: nth_equalityI simp: startTask_length startTask_segmentId startTask_backupId)

lemma startNext_ids:
  "map segmentId (replicas (startNext k s)) = map segmentId (replicas s) \<and>
   map backupId (replicas (startNext k s)) = map backupId (replicas s)"
  by (simp add: startNext_def Let_def startTask_ids split: option.splits)

lemma pollTask_ids:
  "map segmentId (replicas (pollTask grd ready k s)) = map segmentId (replicas s) \<and>
   map backupId (replicas (pollTask grd ready k s)) = map backupId (replicas s)"
  by (simp add: pollTask_def startNext_ids finishTask_ids split: option.splits)

lemma pollTasks_ids:
  "map segmentId (replicas (pollTasks grd ready s)) = map segmentId (replicas s) \<and>
   map backupId (replicas (pollTasks grd ready s)) = map backupId (replicas s)"
  by (simp add: pollTasks_def pollTask_ids)

lemma startInitialTasks_ids:
  "map segmentId (replicas (startInitialTasks ks it s)) = map segmentId (replicas s) \<and>
   map backupId (replicas (startInitialTasks ks it s)) = map backupId (replicas s)"
proof (induction ks arbitrary: it s)
  case Nil
  then show ?case by simp
next
  case (Cons k ks)
  have "map segmentId (replicas ((startTask k it s)\<lparr>activeRequests := a\<rparr>)) =
        map segmentId (replicas s) \<and>
        map backupId (replicas ((startTask k it s)\<lparr>activeRequests := a\<rparr>)) =
        map backupId (replicas s)" for a
    using startTask_ids[of k it s] by simp
  then show ?case using Cons.IH by (simp add: Let_def)
qed

text \<open>The event loop returns.\<close>

lemma eventLoop_drained:
  "recoveryInv grd s \<Longrightarrow>
   \<exists>s'. eventLoop grd [] s = Some s' \<and> recoveryInv grd s' \<and> activeRequests s' = 0 \<and>
        map segmentId (replicas s') = map segmentId (replicas s) \<and>
        map backupId (replicas s') = map backupId (replicas s)"
proof (induction "workLeft s" arbitrary: s rule: less_induct)
  case less
  show ?case
  proof (cases "activeRequests s = 0")
    case True
    then have "eventLoop grd [] s = Some s" by (subst eventLoop.simps) simp
    then show ?thesis using less.prems True by simp
  next
    case False
    let ?s1 = "pollTasks grd (\<lambda>k. True) s"
    have e: "eventLoop grd [] s = eventLoop grd [] ?s1"
      using False by (subst eventLoop.simps) simp
    have "\<exists>s'. eventLoop grd [] ?s1 = Some s' \<and> recoveryInv grd s' \<and> activeRequests s' = 0 \<and>
        map segmentId (replicas s') = map segmentId (replicas ?s1) \<and>
        map backupId (replicas s') = map backupId (replicas ?s1)"
      by (rule less.hyps[OF pollTasks_workLeft[OF less.prems False]
            pollTasks_recoveryInv[OF less.prems]])
    then show ?thesis using e by (simp add: pollTasks_ids)
  qed
qed

lemma eventLoop_returns:
  "recoveryInv grd s \<Longrightarrow>
   \<exists>s'. eventLoop grd sched s = Some s' \<and> recoveryInv grd s' \<and> activeRequests s' = 0 \<and>
        map segmentId (replicas s') = map segmentId (replicas s) \<and>
        map backupId (replicas s') = map backupId (replicas s)"
proof (induction sched arbitrary: s)
  case Nil
  then show ?case by (rule eventLoop_drained)
next
  case (Cons ready rest)
  show ?case
  proof (cases "activeRequests s = 0")
    case True
    then have "eventLoop grd (ready # rest) s = Some s" by (subst eventLoop.simps) simp
    then show ?thesis using Cons.prems True by simp
  next
    case False
    let ?s1 = "pollTasks grd ready s"
    have e: "eventLoop grd (ready # rest) s = eventLoop grd rest ?s1"
      using False by (subst eventLoop.simps) simp
    have "\<exists>s'. eventLoop grd rest ?s1 = Some s' \<and> recoveryInv grd s' \<and> activeRequests s' = 0 \<and>
        map segmentId (replicas s') = map segmentId (replicas ?s1) \<and>
        map backupId (replicas s') = map backupId (replicas ?s1)"
      by (rule Cons.IH[OF pollTasks_recoveryInv[OF Cons.prems]])
    then show ?thesis using e by (simp add: pollTasks_ids)
  qed
qed

lemma drained_states:
  assumes "recoveryInv grd s" "activeRequests s = 0" "i < length (replicas s)"
  shows "state (replicas s ! i) = OK \<or> state (replicas s ! i) = FAILED"
proof -
  have c: "slotsOK s" "runningOK s" "activeOK s" "coveredOK s"
    using assms(1) by (simp_all add: recoveryInv_def coreInv_def)
  have len: "length (tasks s) = 4" using c(1) by (simp add: slotsOK_def)
  have "occupied (tasks s) = 0" using c(3) assms(2) by (simp add: activeOK_def)
  then have none: "\<And>k. k < 4 \<Longrightarrow> tasks s ! k = None"
    using occupied_zero len by simp
  have nw: "\<And>j. j < length (replicas s) \<Longrightarrow> state (replicas s ! j) \<noteq> WAITING"
  proof
    fix j assume "j < length (replicas s)" "state (replicas s ! j) = WAITING"
    then obtain k where "k < 4" "tasks s ! k = Some j" using c(1) unfolding slotsOK_def by blast
    then show False using none by simp
  qed
  then have "runningSet s = {}" using c(2) unfolding runningOK_def by auto
  moreover have "\<exists>k<4. tasks s ! k = None" using none[of 0] by (intro exI[of _ 0]) simp
  then have "\<not> uncovered s i" using c(4) unfolding coveredOK_def by blast
  ultimately have "state (replicas s ! i) \<noteq> NOT_STARTED"
    using assms(3) by (simp add: uncovered_def)
  then show ?thesis using nw[OF assms(3)] by (cases "state (replicas s ! i)") simp_all
qed

lemma okUniform_set:
  assumes "okUniform rs" "r \<in> set rs" "r' \<in> set rs" "segmentId r = segmentId r'" "state r = OK"
  shows "state r' = OK"
proof -
  obtain i where i: "i < length rs" "rs ! i = r" using assms(2) by (auto simp: in_set_conv_nth)
  obtain j where j: "j < length rs" "rs ! j = r'" using assms(3) by (auto simp: in_set_conv_nth)
  show ?thesis using assms(1,4,5) i j unfolding okUniform_def by blast
qed

lemma okSegs_Cons:
  "segmentId ` {x \<in> set (r # rs). state x = st} =
   (if state r = st then insert (segmentId r) (segmentId ` {x \<in> set rs. state x = st})
    else segmentId ` {x \<in> set rs. state x = st})"
proof -
  have "{x \<in> set (r # rs). state x = st} =
    (if state r = st then insert r {x \<in> set rs. state x = st} else {x \<in> set rs. state x = st})"
    by (simp add: set_eq_iff) blast
  then show ?thesis by simp
qed

lemma detectFailures_uniform:
  assumes "\<forall>r\<in>set rs. state r = OK \<or> state r = FAILED"
    and "\<forall>r\<in>set rs. \<forall>r'\<in>set rs. segmentId r = segmentId r' \<longrightarrow> state r = OK \<longrightarrow> state r' = OK"
  shows "detectFailures rs F =
     Inr ((F - segmentId ` {r \<in> set rs. state r = OK}) \<union>
          segmentId ` {r \<in> set rs. state r = FAILED})"
  using assms
proof (induction rs arbitrary: F)
  case Nil
  then show ?case by simp
next
  case (Cons r rs)
  let ?A = "segmentId ` {r \<in> set rs. state r = OK}"
  let ?B = "segmentId ` {r \<in> set rs. state r = FAILED}"
  have p: "\<forall>r\<in>set rs. state r = OK \<or> state r = FAILED"
    "\<forall>r\<in>set rs. \<forall>r'\<in>set rs. segmentId r = segmentId r' \<longrightarrow> state r = OK \<longrightarrow> state r' = OK"
    using Cons.prems by (meson list.set_intros(2))+
  have ih: "\<And>F. detectFailures rs F = Inr ((F - ?A) \<union> ?B)"
    by (rule Cons.IH[OF p])
  have r: "state r = OK \<or> state r = FAILED"
    using Cons.prems(1) by (meson list.set_intros(1))
  have u: "\<And>r'. r' \<in> set rs \<Longrightarrow> segmentId r' = segmentId r \<Longrightarrow> state r' = OK \<Longrightarrow> state r = OK"
    using Cons.prems(2) by (meson list.set_intros)
  from r consider "state r = OK" | "state r = FAILED" by blast
  then show ?case
  proof cases
    case 1
    have A': "segmentId ` {x \<in> set (r # rs). state x = OK} = insert (segmentId r) ?A"
      unfolding okSegs_Cons using 1 by simp
    have B': "segmentId ` {x \<in> set (r # rs). state x = FAILED} = ?B"
      unfolding okSegs_Cons using 1 by simp
    have "detectFailures (r # rs) F = detectFailures rs (F - {segmentId r})"
      using 1 by simp
    also have "\<dots> = Inr (((F - {segmentId r}) - ?A) \<union> ?B)" by (rule ih)
    also have "((F - {segmentId r}) - ?A) \<union> ?B = (F - insert (segmentId r) ?A) \<union> ?B" by blast
    finally show ?thesis unfolding A' B' .
  next
    case 2
    have A': "segmentId ` {x \<in> set (r # rs). state x = OK} = ?A"
      unfolding okSegs_Cons using 2 by simp
    have B': "segmentId ` {x \<in> set (r # rs). state x = FAILED} = insert (segmentId r) ?B"
      unfolding okSegs_Cons using 2 by simp
    have notin: "segmentId r \<notin> ?A"
    proof
      assume "segmentId r \<in> ?A"
      then obtain r' where r': "r' \<in> set rs" "state r' = OK" "segmentId r' = segmentId r" by auto
      have "state r = OK" using u[OF r'(1,3,2)] .
      then show False using 2 by simp
    qed
    have "detectFailures (r # rs) F = detectFailures rs (insert (segmentId r) F)"
      using 2 by simp
    also have "\<dots> = Inr ((insert (segmentId r) F - ?A) \<union> ?B)" by (rule ih)
    also have "(insert (segmentId r) F - ?A) \<union> ?B = (F - ?A) \<union> insert (segmentId r) ?B"
      using notin by (simp add: insert_Diff_if)
    finally show ?thesis unfolding A' B' .
  qed
qed

lemma detect_drained:
  assumes "\<forall>r\<in>set rs. state r = OK \<or> state r = FAILED" "okUniform rs"
  shows "detectSegmentRecoveryFailure rs =
     (if \<exists>r\<in>set rs. state r = FAILED then Inl SegmentRecoveryFailedException else Inr ())"
proof -
  have u: "\<forall>r\<in>set rs. \<forall>r'\<in>set rs. segmentId r = segmentId r' \<longrightarrow> state r = OK \<longrightarrow> state r' = OK"
    using okUniform_set[OF assms(2)] by blast
  have "detectFailures rs {} = Inr (segmentId ` {r \<in> set rs. state r = FAILED})"
    using detectFailures_uniform[OF assms(1) u, of "{}"] by simp
  moreover have "segmentId ` {r \<in> set rs. state r = FAILED} \<noteq> {} \<longleftrightarrow>
      (\<exists>r\<in>set rs. state r = FAILED)" by blast
  ultimately show ?thesis by (simp add: detectSegmentRecoveryFailure_def)
qed

lemma failed_iff_no_OK:
  assumes "\<forall>r\<in>set rs. state r = OK \<or> state r = FAILED" "okUniform rs"
  shows "(\<exists>r\<in>set rs. state r = FAILED) \<longleftrightarrow>
         (\<exists>seg\<in>set (map segmentId rs). \<forall>r\<in>set rs. segmentId r = seg \<longrightarrow> state r \<noteq> OK)"
proof
  assume "\<exists>r\<in>set rs. state r = FAILED"
  then obtain r where r: "r \<in> set rs" "state r = FAILED" by blast
  have "state r' \<noteq> OK" if "r' \<in> set rs" "segmentId r' = segmentId r" for r'
  proof
    assume "state r' = OK"
    then have "state r = OK" using okUniform_set[OF assms(2) that(1) r(1) that(2)] by simp
    then show False using r(2) by simp
  qed
  then have "\<forall>r'\<in>set rs. segmentId r' = segmentId r \<longrightarrow> state r' \<noteq> OK" by blast
  moreover have "segmentId r \<in> set (map segmentId rs)" using r(1) by simp
  ultimately show "\<exists>seg\<in>set (map segmentId rs). \<forall>r\<in>set rs. segmentId r = seg \<longrightarrow> state r \<noteq> OK"
    by blast
next
  assume "\<exists>seg\<in>set (map segmentId rs). \<forall>r\<in>set rs. segmentId r = seg \<longrightarrow> state r \<noteq> OK"
  then obtain seg where seg: "seg \<in> set (map segmentId rs)"
    "\<forall>r\<in>set rs. segmentId r = seg \<longrightarrow> state r \<noteq> OK" by blast
  then obtain r where "r \<in> set rs" "segmentId r = seg" by auto
  then have "r \<in> set rs" "state r \<noteq> OK" using seg(2) by auto
  then show "\<exists>r\<in>set rs. state r = FAILED" using assms(1) by blast
qed

text \<open>What is known when the event loop has returned.\<close>

lemma recovery_outcome:
  "\<exists>s'. eventLoop grd sched (startInitialTasks [0, 1, 2, 3] 0 (initRecovery (mkReplicas ws)))
           = Some s' \<and>
        recoveryInv grd s' \<and> activeRequests s' = 0 \<and>
        map segmentId (replicas s') = map snd ws \<and> map backupId (replicas s') = map fst ws \<and>
        (\<forall>r\<in>set (replicas s'). state r = OK \<or> state r = FAILED)"
proof -
  let ?s0 = "startInitialTasks [0, 1, 2, 3] 0 (initRecovery (mkReplicas ws))"
  obtain s' where s': "eventLoop grd sched ?s0 = Some s'" "recoveryInv grd s'"
    "activeRequests s' = 0" "map segmentId (replicas s') = map segmentId (replicas ?s0)"
    "map backupId (replicas s') = map backupId (replicas ?s0)"
    using eventLoop_returns[OF initial_recoveryInv, of grd sched ws] by blast
  have ids: "map segmentId (replicas ?s0) = map snd ws" "map backupId (replicas ?s0) = map fst ws"
    using startInitialTasks_ids[of "[0, 1, 2, 3]" 0 "initRecovery (mkReplicas ws)"]
    by (simp_all add: initRecovery_def mkReplicas_def mkReplica_def comp_def
        del: startInitialTasks.simps)
  have "\<forall>r\<in>set (replicas s'). state r = OK \<or> state r = FAILED"
    using drained_states[OF s'(2,3)] by (metis in_set_conv_nth)
  then show ?thesis using s' ids by auto
qed

lemma recovery_success:
  assumes s': "recoveryInv grd s'" "\<forall>r\<in>set (replicas s'). state r = OK \<or> state r = FAILED"
    and good: "\<forall>j<length (replicas s'). \<exists>i<length (replicas s').
        segmentId (replicas s' ! i) = segmentId (replicas s' ! j) \<and> grd i = Replayed"
  shows "\<forall>r\<in>set (replicas s'). state r = OK"
proof -
  have c: "okUniform (replicas s')" "failedHonest grd (replicas s')"
    using s'(1) by (simp_all add: recoveryInv_def coreInv_def)
  have "state (replicas s' ! j) = OK" if j: "j < length (replicas s')" for j
  proof -
    obtain i where i: "i < length (replicas s')"
      "segmentId (replicas s' ! i) = segmentId (replicas s' ! j)" "grd i = Replayed"
      using good j by blast
    have "state (replicas s' ! i) \<noteq> FAILED" using c(2) i(1,3) unfolding failedHonest_def by blast
    moreover have "state (replicas s' ! i) = OK \<or> state (replicas s' ! i) = FAILED"
      using s'(2) i(1) by simp
    ultimately have "state (replicas s' ! i) = OK" by blast
    then show ?thesis using c(1) i(1,2) j unfolding okUniform_def by blast
  qed
  then show ?thesis by (metis in_set_conv_nth)
qed

text \<open>A replica is only ever marked OK after a successful replay of its segment.\<close>

lemma finishTask_okHonest:
  assumes h: "okHonest grd (replicas s)" and i: "i < length (replicas s)"
  shows "okHonest grd (replicas (finishTask grd k i s))"
  unfolding okHonest_def
proof (intro allI impI)
  fix j
  assume j: "j < length (replicas (finishTask grd k i s))"
    and ok: "state (replicas (finishTask grd k i s) ! j) = OK"
  have j': "j < length (replicas s)" using j by (simp add: finishTask_length)
  have "\<exists>i'<length (replicas s). segmentId (replicas s ! i') = segmentId (replicas s ! j) \<and>
          grd i' = Replayed"
  proof (cases "state (replicas s ! j) = OK")
    case True
    then show ?thesis using h j' unfolding okHonest_def by blast
  next
    case False
    then have "grd i = Replayed \<and> segmentId (replicas s ! j) = segmentId (replicas s ! i)"
      using ok j' by (simp add: finishTask_state split: if_splits)
    then show ?thesis using i by auto
  qed
  then obtain i' where i': "i' < length (replicas s)"
    "segmentId (replicas s ! i') = segmentId (replicas s ! j)" "grd i' = Replayed" by blast
  show "\<exists>i'<length (replicas (finishTask grd k i s)).
          segmentId (replicas (finishTask grd k i s) ! i') =
            segmentId (replicas (finishTask grd k i s) ! j) \<and> grd i' = Replayed"
    using i' j' by (intro exI[of _ i']) (simp add: finishTask_length finishTask_segmentId)
qed

lemma startTask_okHonest:
  assumes h: "okHonest grd (replicas s)"
  shows "okHonest grd (replicas (startTask k i s))"
  unfolding okHonest_def
proof (intro allI impI)
  fix j
  assume j: "j < length (replicas (startTask k i s))"
    and ok: "state (replicas (startTask k i s) ! j) = OK"
  have j': "j < length (replicas s)" using j by (simp add: startTask_length)
  have "state (replicas s ! j) = OK" using ok j' by (simp add: startTask_state split: if_splits)
  then obtain i' where i': "i' < length (replicas s)"
    "segmentId (replicas s ! i') = segmentId (replicas s ! j)" "grd i' = Replayed"
    using h j' unfolding okHonest_def by blast
  show "\<exists>i'<length (replicas (startTask k i s)).
          segmentId (replicas (startTask k i s) ! i') =
            segmentId (replicas (startTask k i s) ! j) \<and> grd i' = Replayed"
    using i' j' by (intro exI[of _ i']) (simp add: startTask_length startTask_segmentId)
qed

lemma startNext_okHonest:
  "okHonest grd (replicas s) \<Longrightarrow> okHonest grd (replicas (startNext k s))"
  using startTask_okHonest[of grd "s\<lparr>notStarted := advanceNotStarted (replicas s) (notStarted s)\<rparr>" k]
  by (simp add: startNext_def Let_def split: option.splits)

lemma pollTask_okHonest:
  assumes "recoveryInv grd s" "okHonest grd (replicas s)" "k < 4"
  shows "okHonest grd (replicas (pollTask grd ready k s))"
proof (cases "tasks s ! k")
  case None
  then show ?thesis using assms(2) by (simp add: pollTask_def)
next
  case (Some i)
  have "i < length (replicas s)"
    using recoveryInv_slotsOK[OF assms(1)] assms(3) Some unfolding slotsOK_def by blast
  then show ?thesis
    using assms(2) Some by (simp add: pollTask_def startNext_okHonest finishTask_okHonest)
qed

lemma pollTasks_okHonest:
  assumes "recoveryInv grd s" "okHonest grd (replicas s)"
  shows "okHonest grd (replicas (pollTasks grd ready s))"
proof -
  let ?s1 = "pollTask grd (ready 0) 0 s"
  let ?s2 = "pollTask grd (ready 1) 1 ?s1"
  let ?s3 = "pollTask grd (ready 2) 2 ?s2"
  have i1: "recoveryInv grd ?s1" by (intro pollTask_recoveryInv assms) simp
  have i2: "recoveryInv grd ?s2" by (intro pollTask_recoveryInv i1) simp
  have i3: "recoveryInv grd ?s3" by (intro pollTask_recoveryInv i2) simp
  have h1: "okHonest grd (replicas ?s1)" by (intro pollTask_okHonest assms) simp
  have h2: "okHonest grd (replicas ?s2)" by (intro pollTask_okHonest i1 h1) simp
  have h3: "okHonest grd (replicas ?s3)" by (intro pollTask_okHonest i2 h2) simp
  have "okHonest grd (replicas (pollTask grd (ready 3) 3 ?s3))"
    by (intro pollTask_okHonest i3 h3) simp
  then show ?thesis by (simp add: pollTasks_def)
qed

lemma eventLoop_drained_okHonest:
  "recoveryInv grd s \<Longrightarrow> okHonest grd (replicas s) \<Longrightarrow>
   \<exists>s'. eventLoop grd [] s = Some s' \<and> okHonest grd (replicas s')"
proof (induction "workLeft s" arbitrary: s rule: less_induct)
  case less
  show ?case
  proof (cases "activeRequests s = 0")
    case True
    then have "eventLoop grd [] s = Some s" by (subst eventLoop.simps) simp
    then show ?thesis using less.prems by simp
  next
    case False
    let ?s1 = "pollTasks grd (\<lambda>k. True) s"
    have e: "eventLoop grd [] s = eventLoop grd [] ?s1"
      using False by (subst eventLoop.simps) simp
    have "\<exists>s'. eventLoop grd [] ?s1 = Some s' \<and> okHonest grd (replicas s')"
      by (rule less.hyps[OF pollTasks_workLeft[OF less.prems(1) False]
            pollTasks_recoveryInv[OF less.prems(1)] pollTasks_okHonest[OF less.prems]])
    then show ?thesis using e by simp
  qed
qed

lemma eventLoop_okHonest:
  "recoveryInv grd s \<Longrightarrow> okHonest grd (replicas s) \<Longrightarrow>
   \<exists>s'. eventLoop grd sched s = Some s' \<and> okHonest grd (replicas s')"
proof (induction sched arbitrary: s)
  case Nil
  then show ?case by (rule eventLoop_drained_okHonest)
next
  case (Cons ready rest)
  show ?case
  proof (cases "activeRequests s = 0")
    case True
    then have "eventLoop grd (ready # rest) s = Some s" by (subst eventLoop.simps) simp
    then show ?thesis using Cons.prems by simp
  next
    case False
    let ?s1 = "pollTasks grd ready s"
    have e: "eventLoop grd (ready # rest) s = eventLoop grd rest ?s1"
      using False by (subst eventLoop.simps) simp
    have "\<exists>s'. eventLoop grd rest ?s1 = Some s' \<and> okHonest grd (replicas s')"
      by (rule Cons.IH[OF pollTasks_recoveryInv[OF Cons.prems(1)] pollTasks_okHonest[OF Cons.prems]])
    then show ?thesis using e by simp
  qed
qed

lemma startInitialTasks_okHonest:
  "okHonest grd (replicas s) \<Longrightarrow> okHonest grd (replicas (startInitialTasks ks it s))"
proof (induction ks arbitrary: it s)
  case Nil
  then show ?case by simp
next
  case (Cons k ks)
  have "okHonest grd (replicas ((startTask k it s)\<lparr>activeRequests := a\<rparr>))" for a
    using startTask_okHonest[OF Cons.prems, of k it] by simp
  then show ?case using Cons.IH Cons.prems by (simp add: Let_def)
qed

lemma initial_okHonest:
  "okHonest grd (replicas (startInitialTasks [0, 1, 2, 3] 0 (initRecovery (mkReplicas ws))))"
proof -
  have "okHonest grd (replicas (initRecovery (mkReplicas ws)))"
    by (simp add: okHonest_def initRecovery_def mkReplicas_def mkReplica_def)
  then show ?thesis by (rule startInitialTasks_okHonest)
qed

lemma recovery_okHonest:
  "eventLoop grd sched (startInitialTasks [0, 1, 2, 3] 0 (initRecovery (mkReplicas ws))) = Some s'
   \<Longrightarrow> okHonest grd (replicas s')"
  using eventLoop_okHonest[OF initial_recoveryInv initial_okHonest, of grd sched ws] by auto

subsection \<open>The claims about partition recovery\<close>

text \<open>
  Claim C9. The event loop of \<^verbatim>\<open>MasterService::recover\<close> returns, with
  \<^verbatim>\<open>activeRequests\<close> zero, and then every replica of the input list is OK or FAILED:
  none is left NOT_STARTED or WAITING, so \<^verbatim>\<open>detectSegmentRecoveryFailure\<close> never reaches
  its \<^verbatim>\<open>assert(false)\<close>. This holds for every replica list the Recover handler builds,
  every outcome of the requests and every order in which they become ready.
\<close>

theorem recover_loop_ends_with_OK_or_FAILED:
  "\<exists>s'. eventLoop grd sched (startInitialTasks [0, 1, 2, 3] 0 (initRecovery (mkReplicas ws)))
           = Some s' \<and>
        activeRequests s' = 0 \<and> length (replicas s') = length ws \<and>
        (\<forall>r\<in>set (replicas s'). state r = OK \<or> state r = FAILED) \<and>
        detectSegmentRecoveryFailure (replicas s') \<noteq> Inl AssertionFailed \<and>
        recover grd sched (mkReplicas ws) \<noteq> Some (Inl AssertionFailed)"
proof -
  obtain s' where s':
    "eventLoop grd sched (startInitialTasks [0, 1, 2, 3] 0 (initRecovery (mkReplicas ws))) = Some s'"
    "recoveryInv grd s'" "activeRequests s' = 0" "map segmentId (replicas s') = map snd ws"
    "\<forall>r\<in>set (replicas s'). state r = OK \<or> state r = FAILED"
    using recovery_outcome[of grd sched ws] by blast
  have u: "okUniform (replicas s')" using s'(2) by (simp add: recoveryInv_def coreInv_def)
  have d: "detectSegmentRecoveryFailure (replicas s') \<noteq> Inl AssertionFailed"
    by (simp add: detect_drained[OF s'(5) u])
  have l: "length (replicas s') = length ws"
    using s'(4) by (metis length_map)
  have "recover grd sched (mkReplicas ws) \<noteq> Some (Inl AssertionFailed)"
    using d s'(1) by (auto simp: recover_def split: sum.splits)
  then show ?thesis using s' d l by blast
qed

theorem recover_loop_ends_witness:
  "\<exists>s'. eventLoop corruptThenGood []
          (startInitialTasks [0, 1, 2, 3] 0 (initRecovery (mkReplicas [(1, 88), (2, 89), (3, 88)])))
           = Some s' \<and>
        (\<exists>r. r \<in> set (replicas s')) \<and>
        (\<forall>r\<in>set (replicas s'). state r = OK \<or> state r = FAILED)"
proof -
  obtain s' where s':
    "eventLoop corruptThenGood []
      (startInitialTasks [0, 1, 2, 3] 0 (initRecovery (mkReplicas [(1, 88), (2, 89), (3, 88)])))
       = Some s'"
    "length (replicas s') = length [(1, 88), (2, 89), (3 :: u64, 88 :: u64)]"
    "\<forall>r\<in>set (replicas s'). state r = OK \<or> state r = FAILED"
    using recover_loop_ends_with_OK_or_FAILED[of corruptThenGood "[]" "[(1, 88), (2, 89), (3, 88)]"]
    by blast
  have "replicas s' \<noteq> []" using s'(2) by auto
  then have "\<exists>r. r \<in> set (replicas s')" by (simp add: ex_in_conv)
  then show ?thesis using s' by blast
qed

text \<open>
  Claim C1. The replay loop of \<^verbatim>\<open>MasterService::recover\<close> returns, and then
  \<^verbatim>\<open>detectSegmentRecoveryFailure\<close> throws \<^verbatim>\<open>SegmentRecoveryFailedException\<close> if and only
  if some segment id of the replica list has no replica in state OK; \<^verbatim>\<open>recover\<close> throws
  that exception in exactly this case and otherwise returns normally. In terms of the
  input: when every segment id has a replica whose request does not fail, the partition
  recovery returns without throwing, and when some segment id has no such replica, it
  throws \<^verbatim>\<open>SegmentRecoveryFailedException\<close>.
\<close>

theorem detect_failure_iff_segment_without_OK:
  "\<exists>s'. eventLoop grd sched (startInitialTasks [0, 1, 2, 3] 0 (initRecovery (mkReplicas ws)))
           = Some s' \<and>
        map segmentId (replicas s') = map snd ws \<and>
        (detectSegmentRecoveryFailure (replicas s') = Inl SegmentRecoveryFailedException \<longleftrightarrow>
           (\<exists>seg\<in>set (map snd ws). \<forall>r\<in>set (replicas s'). segmentId r = seg \<longrightarrow> state r \<noteq> OK)) \<and>
        recover grd sched (mkReplicas ws) =
          (if \<exists>seg\<in>set (map snd ws). \<forall>r\<in>set (replicas s'). segmentId r = seg \<longrightarrow> state r \<noteq> OK
           then Some (Inl SegmentRecoveryFailedException) else Some (Inr s')) \<and>
        ((\<forall>seg\<in>set (map snd ws). \<exists>i<length ws. snd (ws ! i) = seg \<and> grd i = Replayed) \<longrightarrow>
           recover grd sched (mkReplicas ws) = Some (Inr s')) \<and>
        ((\<exists>seg\<in>set (map snd ws). \<forall>i<length ws. snd (ws ! i) = seg \<longrightarrow> grd i \<noteq> Replayed) \<longrightarrow>
           recover grd sched (mkReplicas ws) = Some (Inl SegmentRecoveryFailedException))"
proof -
  obtain s' where s':
    "eventLoop grd sched (startInitialTasks [0, 1, 2, 3] 0 (initRecovery (mkReplicas ws))) = Some s'"
    "recoveryInv grd s'" "activeRequests s' = 0" "map segmentId (replicas s') = map snd ws"
    "\<forall>r\<in>set (replicas s'). state r = OK \<or> state r = FAILED"
    using recovery_outcome[of grd sched ws] by blast
  have u: "okUniform (replicas s')" using s'(2) by (simp add: recoveryInv_def coreInv_def)
  have hon: "okHonest grd (replicas s')" by (rule recovery_okHonest[OF s'(1)])
  have l: "length (replicas s') = length ws" using s'(4) by (metis length_map)
  have seg: "\<And>i. i < length ws \<Longrightarrow> segmentId (replicas s' ! i) = snd (ws ! i)"
    using s'(4) l by (metis nth_map)
  have d: "detectSegmentRecoveryFailure (replicas s') =
     (if \<exists>r\<in>set (replicas s'). state r = FAILED then Inl SegmentRecoveryFailedException
      else Inr ())"
    by (rule detect_drained[OF s'(5) u])
  have 1: "detectSegmentRecoveryFailure (replicas s') = Inl SegmentRecoveryFailedException \<longleftrightarrow>
           (\<exists>seg\<in>set (map snd ws). \<forall>r\<in>set (replicas s'). segmentId r = seg \<longrightarrow> state r \<noteq> OK)"
    using failed_iff_no_OK[OF s'(5) u] by (simp add: d s'(4))
  have 2: "recover grd sched (mkReplicas ws) =
          (if \<exists>seg\<in>set (map snd ws). \<forall>r\<in>set (replicas s'). segmentId r = seg \<longrightarrow> state r \<noteq> OK
           then Some (Inl SegmentRecoveryFailedException) else Some (Inr s'))"
  proof (cases "detectSegmentRecoveryFailure (replicas s') = Inl SegmentRecoveryFailedException")
    case True
    then have "recover grd sched (mkReplicas ws) = Some (Inl SegmentRecoveryFailedException)"
      using s'(1) by (simp add: recover_def)
    then show ?thesis using True 1 by simp
  next
    case False
    then have "detectSegmentRecoveryFailure (replicas s') = Inr ()" using d by (simp split: if_splits)
    then have "recover grd sched (mkReplicas ws) = Some (Inr s')"
      using s'(1) by (simp add: recover_def)
    then show ?thesis using False 1 by simp
  qed
  have 3: "recover grd sched (mkReplicas ws) = Some (Inr s')"
    if good: "\<forall>seg\<in>set (map snd ws). \<exists>i<length ws. snd (ws ! i) = seg \<and> grd i = Replayed"
  proof -
    have "\<exists>i<length (replicas s').
        segmentId (replicas s' ! i) = segmentId (replicas s' ! j) \<and> grd i = Replayed"
      if j: "j < length (replicas s')" for j
    proof -
      have "snd (ws ! j) \<in> set (map snd ws)" using j l by simp
      then obtain i where "i < length ws" "snd (ws ! i) = snd (ws ! j)" "grd i = Replayed"
        using good by blast
      then show ?thesis using seg j l by auto
    qed
    then have "\<forall>r\<in>set (replicas s'). state r = OK"
      using recovery_success[OF s'(2,5)] by blast
    then have "\<not> (\<exists>r\<in>set (replicas s'). state r = FAILED)" by auto
    then have "detectSegmentRecoveryFailure (replicas s') \<noteq> Inl SegmentRecoveryFailedException"
      using d by simp
    then show ?thesis using 1 2 by simp
  qed
  have 4: "recover grd sched (mkReplicas ws) = Some (Inl SegmentRecoveryFailedException)"
    if bad: "\<exists>seg\<in>set (map snd ws). \<forall>i<length ws. snd (ws ! i) = seg \<longrightarrow> grd i \<noteq> Replayed"
  proof -
    obtain sg where sg: "sg \<in> set (map snd ws)"
      "\<forall>i<length ws. snd (ws ! i) = sg \<longrightarrow> grd i \<noteq> Replayed" using bad by blast
    have "state r \<noteq> OK" if r: "r \<in> set (replicas s')" "segmentId r = sg" for r
    proof
      assume ok: "state r = OK"
      obtain j where j: "j < length (replicas s')" "replicas s' ! j = r"
        using r(1) by (auto simp: in_set_conv_nth)
      then obtain i where i: "i < length (replicas s')"
        "segmentId (replicas s' ! i) = segmentId (replicas s' ! j)" "grd i = Replayed"
        using hon ok unfolding okHonest_def by blast
      have "snd (ws ! i) = sg" using seg[of i] i(1,2) j(2) r(2) l by simp
      then show False using sg(2) i(1,3) l by simp
    qed
    then have "\<exists>seg\<in>set (map snd ws). \<forall>r\<in>set (replicas s'). segmentId r = seg \<longrightarrow> state r \<noteq> OK"
      using sg(1) by blast
    then show ?thesis using 2 by simp
  qed
  show ?thesis
  proof (intro exI[of _ s'] conjI impI)
    show "eventLoop grd sched (startInitialTasks [0, 1, 2, 3] 0 (initRecovery (mkReplicas ws)))
           = Some s'" by (rule s'(1))
    show "map segmentId (replicas s') = map snd ws" by (rule s'(4))
    show "detectSegmentRecoveryFailure (replicas s') = Inl SegmentRecoveryFailedException \<longleftrightarrow>
           (\<exists>seg\<in>set (map snd ws). \<forall>r\<in>set (replicas s'). segmentId r = seg \<longrightarrow> state r \<noteq> OK)"
      by (rule 1)
    show "recover grd sched (mkReplicas ws) =
          (if \<exists>seg\<in>set (map snd ws). \<forall>r\<in>set (replicas s'). segmentId r = seg \<longrightarrow> state r \<noteq> OK
           then Some (Inl SegmentRecoveryFailedException) else Some (Inr s'))" by (rule 2)
  next
    assume "\<forall>seg\<in>set (map snd ws). \<exists>i<length ws. snd (ws ! i) = seg \<and> grd i = Replayed"
    then show "recover grd sched (mkReplicas ws) = Some (Inr s')" by (rule 3)
  next
    assume "\<exists>seg\<in>set (map snd ws). \<forall>i<length ws. snd (ws ! i) = seg \<longrightarrow> grd i \<noteq> Replayed"
    then show "recover grd sched (mkReplicas ws) = Some (Inl SegmentRecoveryFailedException)"
      by (rule 4)
  qed
qed

theorem detect_failure_iff_witness:
  "(\<exists>s'. recover corruptThenGood [] (mkReplicas [(1, 88), (2, 89), (3, 88)]) = Some (Inr s')) \<and>
   recover allCorrupt [] (mkReplicas [(1, 88), (2, 89), (3, 88)]) =
     Some (Inl SegmentRecoveryFailedException)"
proof -
  have h: "\<forall>seg\<in>set (map snd [(1 :: u64, 88 :: u64), (2, 89), (3, 88)]).
      \<exists>i<length [(1 :: u64, 88 :: u64), (2, 89), (3, 88)].
        snd ([(1 :: u64, 88 :: u64), (2, 89), (3, 88)] ! i) = seg \<and> corruptThenGood i = Replayed"
  proof -
    have "snd ([(1 :: u64, 88 :: u64), (2, 89), (3, 88)] ! 2) = 88 \<and> corruptThenGood 2 = Replayed"
      "snd ([(1 :: u64, 88 :: u64), (2, 89), (3, 88)] ! 1) = 89 \<and> corruptThenGood 1 = Replayed"
      by (simp_all add: corruptThenGood_def)
    then show ?thesis by (auto intro: exI[of _ 2] exI[of _ 1])
  qed
  have b: "\<exists>seg\<in>set (map snd [(1 :: u64, 88 :: u64), (2, 89), (3, 88)]).
      \<forall>i<length [(1 :: u64, 88 :: u64), (2, 89), (3, 88)].
        snd ([(1 :: u64, 88 :: u64), (2, 89), (3, 88)] ! i) = seg \<longrightarrow> allCorrupt i \<noteq> Replayed"
    by (auto simp: allCorrupt_def)
  have 1: "\<exists>s'. recover corruptThenGood [] (mkReplicas [(1, 88), (2, 89), (3, 88)]) = Some (Inr s')"
    using h detect_failure_iff_segment_without_OK[of corruptThenGood "[]"
        "[(1, 88), (2, 89), (3, 88)]"]
    by blast
  have 2: "recover allCorrupt [] (mkReplicas [(1, 88), (2, 89), (3, 88)]) =
     Some (Inl SegmentRecoveryFailedException)"
    using b detect_failure_iff_segment_without_OK[of allCorrupt "[]"
        "[(1, 88), (2, 89), (3, 88)]"]
    by blast
  show ?thesis using 1 2 by (rule conjI)
qed

lemma runPolls_recoveryInv:
  "recoveryInv grd s \<Longrightarrow> \<forall>p\<in>set polls. fst p < 4 \<Longrightarrow> recoveryInv grd (runPolls grd polls s)"
  unfolding runPolls_def
proof (induction polls arbitrary: s)
  case Nil
  then show ?case by simp
next
  case (Cons p polls)
  have "recoveryInv grd (pollTask grd (snd p) (fst p) s)"
    using Cons.prems by (intro pollTask_recoveryInv) simp_all
  then show ?case using Cons by simp
qed

lemma waiting_count:
  assumes "slotsOK s"
  shows "length (filter (\<lambda>r. state r = WAITING) (replicas s)) \<le> 4"
proof -
  let ?W = "{i. i < length (replicas s) \<and> state (replicas s ! i) = WAITING}"
  have "?W \<subseteq> (\<lambda>k. the (tasks s ! k)) ` {0..<4}"
  proof
    fix i assume "i \<in> ?W"
    then obtain k where "k < 4" "tasks s ! k = Some i"
      using assms unfolding slotsOK_def by blast
    then show "i \<in> (\<lambda>k. the (tasks s ! k)) ` {0..<4}" by force
  qed
  then have "card ?W \<le> card ((\<lambda>k. the (tasks s ! k)) ` {0..<4})"
    by (intro card_mono) simp_all
  also have "\<dots> \<le> card {0..<4::nat}" by (rule card_image_le) simp
  finally show ?thesis by (simp add: length_filter_conv_card)
qed

lemma pick_conditions:
  assumes "slotsOK s" "k < 4" "tasks s ! k = Some i" "j < length (replicas s)"
    and "state (replicas (pollTask grd True k s) ! j) = WAITING"
      "state (replicas s ! j) \<noteq> WAITING"
  shows "state (replicas s ! j) = NOT_STARTED \<and>
         segmentId (replicas s ! j) \<notin> runningSet s - {segmentId (replicas s ! i)} \<and>
         segmentId (replicas s ! j) \<in> runningSet (pollTask grd True k s) \<and>
         tasks (pollTask grd True k s) ! k = Some j"
proof -
  let ?s1 = "finishTask grd k i s"
  let ?s1' = "?s1\<lparr>notStarted := advanceNotStarted (replicas ?s1) (notStarted ?s1)\<rparr>"
  have i: "i < length (replicas s)" "state (replicas s ! i) = WAITING"
    using slotsOK_task[OF assms(1,2,3)] by simp_all
  have len: "length (tasks s) = 4" using assms(1) by (simp add: slotsOK_def)
  have p: "pollTask grd True k s = startNext k ?s1" using assms(3) by (simp add: pollTask_def)
  have n1: "state (replicas ?s1 ! j) \<noteq> WAITING"
    using finishTask_state_waiting[OF assms(1,2,3,4)] assms(6) by blast
  show ?thesis
  proof (cases "findCandidate (replicas ?s1') (runningSet ?s1') (notStarted ?s1')")
    case None
    then have "replicas (startNext k ?s1) = replicas ?s1"
      by (simp add: startNext_def Let_def)
    then show ?thesis using assms(5) n1 p by simp
  next
    case (Some j')
    have s2: "startNext k ?s1 = startTask k j' ?s1'" using Some by (simp add: startNext_def Let_def)
    have j': "j' < length (replicas ?s1)" "state (replicas ?s1 ! j') = NOT_STARTED"
      "segmentId (replicas ?s1 ! j') \<notin> runningSet ?s1"
      using findCandidate_Some[OF Some] by simp_all
    have "j = j'"
      using assms(4,5) n1 by (auto simp: p s2 startTask_state finishTask_length split: if_splits)
    then have "state (replicas s ! j) = NOT_STARTED"
      "segmentId (replicas s ! j) \<notin> runningSet s - {segmentId (replicas s ! i)}"
      using j' assms(4) finishTask_NOT_STARTED[OF i assms(4), of grd k]
      by (simp_all add: finishTask_segmentId finishTask_runningSet)
    moreover have "segmentId (replicas s ! j) \<in> runningSet (pollTask grd True k s)"
      "tasks (pollTask grd True k s) ! k = Some j"
      using \<open>j = j'\<close> assms(2,4) len
      by (simp_all add: p s2 startTask_runningSet startTask_tasks finishTask_segmentId
          finishTask_tasks)
    ultimately show ?thesis by simp
  qed
qed

text \<open>
  Claim C3. In every state of the event loop (after the initial round and any sequence
  of polls) at most four requests are in flight: the four task slots, and as many
  WAITING replicas at most; no two replicas in flight have the same segment id; the
  replica of every occupied slot is WAITING and its segment id is in \<^verbatim>\<open>runningSet\<close>. A
  replica that a poll puts in flight was NOT_STARTED, its segment id was not in
  \<^verbatim>\<open>runningSet\<close> when it was picked (that is, after the finished task's segment id had
  been erased), and picking it makes it WAITING, records it in the slot and puts its
  segment id into \<^verbatim>\<open>runningSet\<close>. Before the initial round every replica is NOT_STARTED.
\<close>

theorem requests_bounded_and_distinct:
  assumes "\<forall>p\<in>set polls. fst p < 4"
    and "s = runPolls grd polls (startInitialTasks [0, 1, 2, 3] 0 (initRecovery (mkReplicas ws)))"
  shows "(\<forall>r\<in>set (mkReplicas ws). state r = NOT_STARTED) \<and>
     length (tasks s) = 4 \<and> occupied (tasks s) \<le> 4 \<and>
     length (filter (\<lambda>r. state r = WAITING) (replicas s)) \<le> 4 \<and>
     (\<forall>i<length (replicas s). \<forall>j<length (replicas s).
        state (replicas s ! i) = WAITING \<longrightarrow> state (replicas s ! j) = WAITING \<longrightarrow>
        segmentId (replicas s ! i) = segmentId (replicas s ! j) \<longrightarrow> i = j) \<and>
     (\<forall>k<4. \<forall>i. tasks s ! k = Some i \<longrightarrow>
        i < length (replicas s) \<and> state (replicas s ! i) = WAITING \<and>
        segmentId (replicas s ! i) \<in> runningSet s) \<and>
     (\<forall>k<4. \<forall>i. \<forall>j<length (replicas s).
        tasks s ! k = Some i \<longrightarrow>
        state (replicas (pollTask grd True k s) ! j) = WAITING \<longrightarrow>
        state (replicas s ! j) \<noteq> WAITING \<longrightarrow>
        state (replicas s ! j) = NOT_STARTED \<and>
        segmentId (replicas s ! j) \<notin> runningSet s - {segmentId (replicas s ! i)} \<and>
        segmentId (replicas s ! j) \<in> runningSet (pollTask grd True k s) \<and>
        tasks (pollTask grd True k s) ! k = Some j)"
proof -
  have inv: "recoveryInv grd s"
    unfolding assms(2) by (rule runPolls_recoveryInv[OF initial_recoveryInv assms(1)])
  then have c: "slotsOK s" "waitingDistinct (replicas s)" "runningOK s"
    by (simp_all add: recoveryInv_def coreInv_def)
  have 1: "length (tasks s) = 4" using c(1) by (simp add: slotsOK_def)
  have 2: "occupied (tasks s) \<le> 4" using occupied_le[of "tasks s"] 1 by simp
  have 3: "length (filter (\<lambda>r. state r = WAITING) (replicas s)) \<le> 4"
    by (rule waiting_count[OF c(1)])
  have 4: "\<forall>i<length (replicas s). \<forall>j<length (replicas s).
        state (replicas s ! i) = WAITING \<longrightarrow> state (replicas s ! j) = WAITING \<longrightarrow>
        segmentId (replicas s ! i) = segmentId (replicas s ! j) \<longrightarrow> i = j"
    using c(2) unfolding waitingDistinct_def .
  have 5: "\<forall>k<4. \<forall>i. tasks s ! k = Some i \<longrightarrow>
        i < length (replicas s) \<and> state (replicas s ! i) = WAITING \<and>
        segmentId (replicas s ! i) \<in> runningSet s"
    using slotsOK_task[OF c(1)] runningOK_waiting[OF c(3)] by blast
  have 6: "\<forall>k<4. \<forall>i. \<forall>j<length (replicas s).
        tasks s ! k = Some i \<longrightarrow>
        state (replicas (pollTask grd True k s) ! j) = WAITING \<longrightarrow>
        state (replicas s ! j) \<noteq> WAITING \<longrightarrow>
        state (replicas s ! j) = NOT_STARTED \<and>
        segmentId (replicas s ! j) \<notin> runningSet s - {segmentId (replicas s ! i)} \<and>
        segmentId (replicas s ! j) \<in> runningSet (pollTask grd True k s) \<and>
        tasks (pollTask grd True k s) ! k = Some j"
    using pick_conditions[OF c(1)] by blast
  have 0: "\<forall>r\<in>set (mkReplicas ws). state r = NOT_STARTED"
    by (simp add: mkReplicas_def mkReplica_def)
  show ?thesis using 0 1 2 3 4 5 6 by blast
qed

lemmas recovery_eval = initRecovery_def mkReplicas_def mkReplica_def startTask_def
  skipRunning.simps pollTask_def pollTasks_def finishTask_def startNext_def
  advanceNotStarted.simps findCandidate.simps runPolls_def corruptThenGood_def Let_def
  eventLoop.simps recover_def detectSegmentRecoveryFailure_def

theorem requests_bounded_witness:
  "tasks (pollTask corruptThenGood True 0
      (runPolls corruptThenGood []
        (startInitialTasks [0, 1, 2, 3] 0 (initRecovery (mkReplicas [(1, 88), (2, 88)]))))) ! 0
   = Some 1"
proof -
  define s where
    "s = runPolls corruptThenGood []
           (startInitialTasks [0, 1, 2, 3] 0 (initRecovery (mkReplicas [(1, 88), (2, 88)])))"
  have h: "\<forall>p\<in>set ([] :: (nat \<times> bool) list). fst p < 4" by simp
  have pre: "(0::nat) < 4" "(1::nat) < length (replicas s)" "tasks s ! 0 = Some 0"
    "state (replicas (pollTask corruptThenGood True 0 s) ! 1) = WAITING"
    "state (replicas s ! 1) \<noteq> WAITING"
    unfolding s_def by (simp_all add: recovery_eval)
  have "\<forall>k<4. \<forall>i. \<forall>j<length (replicas s).
        tasks s ! k = Some i \<longrightarrow>
        state (replicas (pollTask corruptThenGood True k s) ! j) = WAITING \<longrightarrow>
        state (replicas s ! j) \<noteq> WAITING \<longrightarrow>
        state (replicas s ! j) = NOT_STARTED \<and>
        segmentId (replicas s ! j) \<notin> runningSet s - {segmentId (replicas s ! i)} \<and>
        segmentId (replicas s ! j) \<in> runningSet (pollTask corruptThenGood True k s) \<and>
        tasks (pollTask corruptThenGood True k s) ! k = Some j"
    using requests_bounded_and_distinct[OF h s_def] by blast
  then have "tasks (pollTask corruptThenGood True 0 s) ! 0 = Some 1"
    using pre by blast
  then show ?thesis unfolding s_def .
qed

text \<open>
  Claim C2, as stated, fails on the code: segment 42 has replicas on backups 1 and 2, the
  first request returns a corrupt segment and the second succeeds. The recovery succeeds
  after one replay, but the first replica does not end FAILED: the successful replay marks
  every replica of the segment OK, the failed one included.
\<close>

theorem failover_first_replica_counterexample:
  "recover corruptThenGood [] (mkReplicas [(1, 42), (2, 42)]) = Some (Inr failoverFinal) \<and>
   state (replicas failoverFinal ! 0) = OK \<and> state (replicas failoverFinal ! 0) \<noteq> FAILED"
  by (simp add: recovery_eval failoverFinal_def)

lemma distinct_singleton: "distinct xs \<Longrightarrow> set xs = {a} \<Longrightarrow> xs = [a]"
proof (cases xs)
  case Nil
  assume "set xs = {a}"
  then show ?thesis using Nil by simp
next
  case (Cons x ys)
  assume d: "distinct xs" and s: "set xs = {a}"
  have "x = a" using s Cons by auto
  moreover have "set ys \<subseteq> {a}" "a \<notin> set ys" using s d Cons \<open>x = a\<close> by auto
  then have "ys = []" by (cases ys) auto
  ultimately show ?thesis using Cons by simp
qed

text \<open>
  Claim C2, amended. For a segment with two replicas where the first request returns a
  corrupt segment and the second succeeds, exactly one replay of the segment occurs, the
  first replica is FAILED once its request has been processed, both replicas end in state
  OK, and the recovery succeeds; this holds whatever the order in which the requests
  become ready.
\<close>

theorem failover_two_replicas:
  assumes "grd 0 = SegmentIteratorException" "grd 1 = Replayed"
  shows "\<exists>s'. recover grd sched (mkReplicas [(b1, seg), (b2, seg)]) = Some (Inr s') \<and>
     replayed s' = [seg] \<and> map state (replicas s') = [OK, OK] \<and>
     map state (replicas (pollTask grd True 0
        (startInitialTasks [0, 1, 2, 3] 0 (initRecovery (mkReplicas [(b1, seg), (b2, seg)])))))
       = [FAILED, WAITING]"
proof -
  let ?ws = "[(b1, seg), (b2, seg)]"
  obtain s' where s':
    "eventLoop grd sched (startInitialTasks [0, 1, 2, 3] 0 (initRecovery (mkReplicas ?ws))) = Some s'"
    "recoveryInv grd s'" "activeRequests s' = 0" "map segmentId (replicas s') = map snd ?ws"
    "\<forall>r\<in>set (replicas s'). state r = OK \<or> state r = FAILED"
    using recovery_outcome[of grd sched ?ws] by blast
  have c: "okUniform (replicas s')" "replayedOK s'"
    using s'(2) by (simp_all add: recoveryInv_def coreInv_def)
  have l: "length (replicas s') = 2" using s'(4) by (metis length_map length_Cons list.size(3) numeral_2_eq_2)
  have seg: "\<And>i. i < 2 \<Longrightarrow> segmentId (replicas s' ! i) = seg"
  proof -
    fix i :: nat assume i: "i < 2"
    have "segmentId (replicas s' ! i) = map segmentId (replicas s') ! i" using i l by simp
    also have "\<dots> = seg" using i unfolding s'(4) by (cases i) auto
    finally show "segmentId (replicas s' ! i) = seg" .
  qed
  have "\<exists>i<length (replicas s').
        segmentId (replicas s' ! i) = segmentId (replicas s' ! j) \<and> grd i = Replayed"
    if "j < length (replicas s')" for j
    using that l seg assms(2) by (intro exI[of _ 1]) simp
  then have ok: "\<forall>r\<in>set (replicas s'). state r = OK"
    using recovery_success[OF s'(2,5)] by blast
  then have st: "map state (replicas s') = [OK, OK]"
    using l by (intro nth_equalityI) (auto simp: less_Suc_eq numeral_2_eq_2)
  have "\<not> (\<exists>r\<in>set (replicas s'). state r = FAILED)" using ok by auto
  then have "detectSegmentRecoveryFailure (replicas s') = Inr ()"
    using detect_drained[OF s'(5) c(1)] by simp
  then have r: "recover grd sched (mkReplicas ?ws) = Some (Inr s')"
    using s'(1) by (simp add: recover_def)
  have "set (replayed s') = {seg}"
  proof -
    have "set (replayed s') = {sg. \<exists>i<length (replicas s'). state (replicas s' ! i) = OK \<and>
               segmentId (replicas s' ! i) = sg}"
      using c(2) by (simp add: replayedOK_def)
    also have "\<dots> = {seg}"
    proof (intro equalityI subsetI)
      fix sg assume "sg \<in> {sg. \<exists>i<length (replicas s'). state (replicas s' ! i) = OK \<and>
               segmentId (replicas s' ! i) = sg}"
      then show "sg \<in> {seg}" using seg l by auto
    next
      fix sg assume "sg \<in> {seg}"
      moreover have "state (replicas s' ! 0) = OK" using ok l by simp
      ultimately show "sg \<in> {sg. \<exists>i<length (replicas s'). state (replicas s' ! i) = OK \<and>
               segmentId (replicas s' ! i) = sg}"
        using seg[of 0] l by (auto intro!: exI[of _ 0])
    qed
    finally show ?thesis .
  qed
  moreover have "distinct (replayed s')" using c(2) by (simp add: replayedOK_def)
  ultimately have rp: "replayed s' = [seg]" by (intro distinct_singleton)
  have mid: "map state (replicas (pollTask grd True 0
        (startInitialTasks [0, 1, 2, 3] 0 (initRecovery (mkReplicas ?ws))))) = [FAILED, WAITING]"
    using assms by (simp add: recovery_eval)
  show ?thesis using r rp st mid by (intro exI[of _ s']) simp
qed

theorem failover_two_replicas_witness:
  "\<exists>s'. recover corruptThenGood [] (mkReplicas [(1, 42), (2, 42)]) = Some (Inr s') \<and>
     replayed s' = [42] \<and> map state (replicas s') = [OK, OK]"
proof -
  have "corruptThenGood 0 = SegmentIteratorException" "corruptThenGood 1 = Replayed"
    by (simp_all add: corruptThenGood_def)
  from failover_two_replicas[OF this, of "[]" 1 42 2]
  obtain s' where "recover corruptThenGood [] (mkReplicas [(1, 42), (2, 42)]) = Some (Inr s')"
    "replayed s' = [42]" "map state (replicas s') = [OK, OK]"
    by (elim exE conjE)
  then show ?thesis by (intro exI[of _ s']) simp
qed

section \<open>Tablet ownership: proofs\<close>

lemma tabletsOK_same:
  assumes "tabletsOK tm" "t \<in> set tm" "sameRange t tid f l" "t' \<in> set tm" "overlaps t' tid f l"
  shows "t' = t"
proof -
  have "overlaps t' (tableId t) (startKeyHash t) (endKeyHash t)"
    using assms(3,5) by (simp add: sameRange_def overlaps_def)
  then show ?thesis using assms(1,2,4) unfolding tabletsOK_def by blast
qed

lemma sameRange_overlaps:
  "tabletsOK tm \<Longrightarrow> t \<in> set tm \<Longrightarrow> sameRange t tid f l \<Longrightarrow> overlaps t tid f l"
  unfolding tabletsOK_def sameRange_def overlaps_def by auto

lemma getTablet_Some:
  assumes "tabletsOK tm" "t \<in> set tm" "sameRange t tid f l"
  shows "getTablet tm tid f l = Some t"
proof -
  obtain t' where t': "find (\<lambda>t. sameRange t tid f l) tm = Some t'"
    using assms(2,3) by (cases "find (\<lambda>t. sameRange t tid f l) tm") (auto simp: find_None_iff)
  then have "t' \<in> set tm" "sameRange t' tid f l"
    by (auto simp: find_Some_iff)
  then have "t' = t"
    using tabletsOK_same[OF assms(1,2,3)] sameRange_overlaps[OF assms(1)] by blast
  then show ?thesis using t' by (simp add: getTablet_def)
qed

lemma getTablet_None:
  "\<not> (\<exists>t\<in>set tm. sameRange t tid f l) \<Longrightarrow> getTablet tm tid f l = None"
  by (auto simp: getTablet_def find_None_iff)

lemma changeState_only:
  assumes "tabletsOK tm" "t \<in> set tm" "sameRange t tid f l"
  shows "changeState tm tid f l old new =
     (if tabletState t = old
      then (True, map (\<lambda>t'. if t' = t then t\<lparr>tabletState := new\<rparr> else t') tm)
      else (False, tm))"
proof -
  have only: "\<And>t'. t' \<in> set tm \<Longrightarrow> sameRange t' tid f l \<longleftrightarrow> t' = t"
    using tabletsOK_same[OF assms] sameRange_overlaps[OF assms(1)] assms(3) by blast
  have ex: "list_ex (\<lambda>t'. sameRange t' tid f l \<and> tabletState t' = old) tm \<longleftrightarrow> tabletState t = old"
    using only assms(2) by (auto simp: list_ex_iff)
  have "map (\<lambda>t'. if sameRange t' tid f l \<and> tabletState t' = old
                      then t'\<lparr>tabletState := new\<rparr> else t') tm =
        map (\<lambda>t'. if t' = t then t\<lparr>tabletState := new\<rparr> else t') tm"
    if "tabletState t = old"
    using only that by (intro map_cong) auto
  then show ?thesis using ex by (simp add: changeState_def)
qed

lemma changeState_none:
  "\<not> (\<exists>t\<in>set tm. sameRange t tid f l) \<Longrightarrow> changeState tm tid f l old new = (False, tm)"
  by (auto simp: changeState_def list_ex_iff)

lemma take_added:
  assumes "\<not> (\<exists>t\<in>set (tabletManager m). overlaps t tid f l)"
  shows "fst (takeTabletOwnership m tid f l) = STATUS_OK \<and>
     tabletManager (snd (takeTabletOwnership m tid f l)) =
       tabletManager m @ [\<lparr>tableId = tid, startKeyHash = f, endKeyHash = l, tabletState = NORMAL\<rparr>]"
  using assms by (simp add: takeTabletOwnership_def addTablet_def list_ex_iff Let_def)

lemma take_exact:
  assumes ok: "tabletsOK (tabletManager m)" and t: "t \<in> set (tabletManager m)" "sameRange t tid f l"
  shows "takeTabletOwnership m tid f l =
     (case tabletState t of
        NORMAL \<Rightarrow> (STATUS_OK, m\<lparr>logEverSynced := True\<rparr>)
      | RECOVERING \<Rightarrow>
          (STATUS_OK,
           m\<lparr>logEverSynced := True,
             tabletManager := map (\<lambda>t'. if t' = t then t\<lparr>tabletState := NORMAL\<rparr> else t')
                                (tabletManager m)\<rparr>)
      | LOCKED_FOR_MIGRATION \<Rightarrow> (STATUS_INTERNAL_ERROR, m\<lparr>logEverSynced := True\<rparr>))"
proof -
  have ov: "list_ex (\<lambda>t. overlaps t tid f l) (tabletManager m)"
    using sameRange_overlaps[OF ok t] t(1) by (auto simp: list_ex_iff)
  have m1: "(if \<not> logEverSynced m then m\<lparr>logEverSynced := True\<rparr> else m) = m\<lparr>logEverSynced := True\<rparr>"
    by simp
  show ?thesis
    unfolding takeTabletOwnership_def m1
    using ov getTablet_Some[OF ok t] changeState_only[OF ok t, of RECOVERING NORMAL]
    by (cases "tabletState t") (simp_all add: addTablet_def Let_def)
qed

lemma take_conflict:
  assumes "\<exists>t\<in>set (tabletManager m). overlaps t tid f l"
    and "\<not> (\<exists>t\<in>set (tabletManager m). sameRange t tid f l)"
  shows "takeTabletOwnership m tid f l = (STATUS_INTERNAL_ERROR, m\<lparr>logEverSynced := True\<rparr>)"
proof -
  have ov: "list_ex (\<lambda>t. overlaps t tid f l) (tabletManager m)"
    using assms(1) by (simp add: list_ex_iff)
  have m1: "(if \<not> logEverSynced m then m\<lparr>logEverSynced := True\<rparr> else m) = m\<lparr>logEverSynced := True\<rparr>"
    by simp
  show ?thesis
    unfolding takeTabletOwnership_def m1
    using ov getTablet_None[OF assms(2)] changeState_none[OF assms(2), of RECOVERING NORMAL]
    by (simp add: addTablet_def Let_def)
qed

text \<open>
  Claim C10, as stated, fails on the code: a master that holds the tablet with exactly
  the requested range in state LOCKED_FOR_MIGRATION answers STATUS_INTERNAL_ERROR,
  although no tablet of a different range overlaps the request.
\<close>

theorem takeTabletOwnership_locked_counterexample:
  "takeTabletOwnership lockedTabletMaster 1 0 9 = (STATUS_INTERNAL_ERROR, lockedTabletMaster) \<and>
   \<not> list_ex (\<lambda>t. overlaps t 1 0 9 \<and> \<not> sameRange t 1 0 9) (tabletManager lockedTabletMaster)"
  by (simp add: takeTabletOwnership_def lockedTabletMaster_def addTablet_def getTablet_def
      changeState_def overlaps_def sameRange_def Let_def)

text \<open>
  Claim C10, amended. On a well-formed tablet map: when the master owns the tablet with
  exactly the requested range in state NORMAL, \<^verbatim>\<open>takeTabletOwnership\<close> returns success and
  leaves the tablet map unchanged; when that tablet is RECOVERING, it returns success and
  the tablet becomes NORMAL, the others unchanged; it answers STATUS_INTERNAL_ERROR exactly
  when the request overlaps a tablet of a different range or the tablet with exactly the
  requested range is LOCKED_FOR_MIGRATION, and then the tablet map is unchanged.
\<close>

theorem takeTabletOwnership_cases:
  assumes ok: "tabletsOK (tabletManager m)"
    and r: "r = takeTabletOwnership m tid f l"
  shows "(\<forall>t\<in>set (tabletManager m). sameRange t tid f l \<longrightarrow> tabletState t = NORMAL \<longrightarrow>
            fst r = STATUS_OK \<and> tabletManager (snd r) = tabletManager m) \<and>
         (\<forall>t\<in>set (tabletManager m). sameRange t tid f l \<longrightarrow> tabletState t = RECOVERING \<longrightarrow>
            fst r = STATUS_OK \<and>
            tabletManager (snd r) =
              map (\<lambda>t'. if t' = t then t\<lparr>tabletState := NORMAL\<rparr> else t') (tabletManager m)) \<and>
         (fst r = STATUS_INTERNAL_ERROR \<longleftrightarrow>
            (\<exists>t\<in>set (tabletManager m). overlaps t tid f l \<and> \<not> sameRange t tid f l) \<or>
            (\<exists>t\<in>set (tabletManager m). sameRange t tid f l \<and>
               tabletState t = LOCKED_FOR_MIGRATION)) \<and>
         (fst r = STATUS_INTERNAL_ERROR \<longrightarrow> tabletManager (snd r) = tabletManager m)"
proof -
  have 1: "fst r = STATUS_OK \<and> tabletManager (snd r) = tabletManager m"
    if "t \<in> set (tabletManager m)" "sameRange t tid f l" "tabletState t = NORMAL" for t
    unfolding r using take_exact[OF ok that(1,2)] that(3) by simp
  have 2: "fst r = STATUS_OK \<and> tabletManager (snd r) =
              map (\<lambda>t'. if t' = t then t\<lparr>tabletState := NORMAL\<rparr> else t') (tabletManager m)"
    if "t \<in> set (tabletManager m)" "sameRange t tid f l" "tabletState t = RECOVERING" for t
    unfolding r using take_exact[OF ok that(1,2)] that(3) by simp
  have 3: "fst r = STATUS_INTERNAL_ERROR \<longleftrightarrow>
            (\<exists>t\<in>set (tabletManager m). overlaps t tid f l \<and> \<not> sameRange t tid f l) \<or>
            (\<exists>t\<in>set (tabletManager m). sameRange t tid f l \<and>
               tabletState t = LOCKED_FOR_MIGRATION)"
  proof (cases "\<exists>t\<in>set (tabletManager m). sameRange t tid f l")
    case True
    then obtain t where t: "t \<in> set (tabletManager m)" "sameRange t tid f l" by blast
    have only: "\<And>t'. t' \<in> set (tabletManager m) \<Longrightarrow> overlaps t' tid f l \<Longrightarrow> t' = t"
      using tabletsOK_same[OF ok t] by blast
    have "fst r = STATUS_INTERNAL_ERROR \<longleftrightarrow> tabletState t = LOCKED_FOR_MIGRATION"
      unfolding r using take_exact[OF ok t] by (cases "tabletState t") simp_all
    moreover have "\<not> (\<exists>t\<in>set (tabletManager m). overlaps t tid f l \<and> \<not> sameRange t tid f l)"
      using only t(2) by blast
    moreover have "(\<exists>t\<in>set (tabletManager m). sameRange t tid f l \<and>
               tabletState t = LOCKED_FOR_MIGRATION) \<longleftrightarrow> tabletState t = LOCKED_FOR_MIGRATION"
      using only t sameRange_overlaps[OF ok] by blast
    ultimately show ?thesis by blast
  next
    case False
    show ?thesis
    proof (cases "\<exists>t\<in>set (tabletManager m). overlaps t tid f l")
      case True
      then show ?thesis unfolding r using take_conflict[OF True False] False by auto
    next
      case no: False
      then show ?thesis unfolding r using take_added[OF no] False by auto
    qed
  qed
  have 4: "tabletManager (snd r) = tabletManager m" if e: "fst r = STATUS_INTERNAL_ERROR"
  proof (cases "\<exists>t\<in>set (tabletManager m). sameRange t tid f l")
    case True
    then obtain t where t: "t \<in> set (tabletManager m)" "sameRange t tid f l" by blast
    show ?thesis
      using e unfolding r using take_exact[OF ok t] by (cases "tabletState t") simp_all
  next
    case False
    show ?thesis
    proof (cases "\<exists>t\<in>set (tabletManager m). overlaps t tid f l")
      case True
      then show ?thesis unfolding r using take_conflict[OF True False] by simp
    next
      case no: False
      then show ?thesis using e unfolding r using take_added[OF no] by simp
    qed
  qed
  show ?thesis using 1 2 3 4 by blast
qed

theorem takeTabletOwnership_cases_witness:
  "fst (takeTabletOwnership recoveringTabletMaster 1 0 9) = STATUS_OK \<and>
   tabletManager (snd (takeTabletOwnership recoveringTabletMaster 1 0 9)) =
     [\<lparr>tableId = 1, startKeyHash = 0, endKeyHash = 9, tabletState = NORMAL\<rparr>,
      \<lparr>tableId = 1, startKeyHash = 10, endKeyHash = 19, tabletState = NORMAL\<rparr>]"
proof -
  let ?t = "\<lparr>tableId = 1, startKeyHash = 0, endKeyHash = 9, tabletState = RECOVERING\<rparr>"
  have ok: "tabletsOK (tabletManager recoveringTabletMaster)"
    by (simp add: tabletsOK_def overlaps_def recoveringTabletMaster_def)
  have t: "?t \<in> set (tabletManager recoveringTabletMaster)" "sameRange ?t 1 0 9"
    "tabletState ?t = RECOVERING"
    by (simp_all add: recoveringTabletMaster_def sameRange_def)
  have "fst (takeTabletOwnership recoveringTabletMaster 1 0 9) = STATUS_OK \<and>
        tabletManager (snd (takeTabletOwnership recoveringTabletMaster 1 0 9)) =
          map (\<lambda>t'. if t' = ?t then ?t\<lparr>tabletState := NORMAL\<rparr> else t')
            (tabletManager recoveringTabletMaster)"
    using takeTabletOwnership_cases[OF ok refl, of 1 0 9] t by blast
  then show ?thesis by (simp add: recoveringTabletMaster_def)
qed

section \<open>Tablet migration: proofs\<close>



























lemma sameRange_covers: "sameRange t tid f l \<Longrightarrow> covers t tid f l"
  by (simp add: sameRange_def covers_def)

text \<open>
  Claim C6. \<^verbatim>\<open>migrateTablet\<close> rejects without issuing any RPC and without changing the
  master: with STATUS_UNKNOWN_TABLET when the tablet lookup finds no tablet for the
  requested range, in particular when no tablet of the master covers the range, and with
  STATUS_REQUEST_FORMAT_ERROR when the range is owned and the new owner is the master
  itself.
\<close>

theorem migrateTablet_rejects:
  "(getTablet (tabletManager m) tid f l = None \<longrightarrow>
      migrateTablet sz kpr prep older onHead m tid f l newOwner = (STATUS_UNKNOWN_TABLET, m, [])) \<and>
   (\<not> (\<exists>t\<in>set (tabletManager m). covers t tid f l) \<longrightarrow>
      migrateTablet sz kpr prep older onHead m tid f l newOwner = (STATUS_UNKNOWN_TABLET, m, [])) \<and>
   (getTablet (tabletManager m) tid f l \<noteq> None \<longrightarrow> newOwner = serverId m \<longrightarrow>
      migrateTablet sz kpr prep older onHead m tid f l newOwner =
        (STATUS_REQUEST_FORMAT_ERROR, m, []))"
proof -
  have 1: "migrateTablet sz kpr prep older onHead m tid f l newOwner = (STATUS_UNKNOWN_TABLET, m, [])"
    if "getTablet (tabletManager m) tid f l = None"
    using that by (simp add: migrateTablet_def)
  have 2: "getTablet (tabletManager m) tid f l = None"
    if "\<not> (\<exists>t\<in>set (tabletManager m). covers t tid f l)"
    using that sameRange_covers by (auto simp: getTablet_def find_None_iff)
  have 3: "migrateTablet sz kpr prep older onHead m tid f l newOwner =
        (STATUS_REQUEST_FORMAT_ERROR, m, [])"
    if "getTablet (tabletManager m) tid f l \<noteq> None" "newOwner = serverId m"
    using that by (auto simp: migrateTablet_def)
  show ?thesis
  proof (intro conjI impI)
    assume "getTablet (tabletManager m) tid f l = None"
    then show "migrateTablet sz kpr prep older onHead m tid f l newOwner =
      (STATUS_UNKNOWN_TABLET, m, [])" by (rule 1)
  next
    assume "\<not> (\<exists>t\<in>set (tabletManager m). covers t tid f l)"
    then show "migrateTablet sz kpr prep older onHead m tid f l newOwner =
      (STATUS_UNKNOWN_TABLET, m, [])" by (intro 1 2)
  next
    assume "getTablet (tabletManager m) tid f l \<noteq> None" "newOwner = serverId m"
    then show "migrateTablet sz kpr prep older onHead m tid f l newOwner =
      (STATUS_REQUEST_FORMAT_ERROR, m, [])" by (rule 3)
  qed
qed

theorem migrateTablet_rejects_witness:
  "migrateTablet 65536 allLive STATUS_OK [objectV2] [] migratingMaster 2 0 9 3 =
     (STATUS_UNKNOWN_TABLET, migratingMaster, []) \<and>
   migrateTablet 65536 allLive STATUS_OK [objectV2] [] migratingMaster 1 0 9 7 =
     (STATUS_REQUEST_FORMAT_ERROR, migratingMaster, [])"
proof -
  have a: "\<not> (\<exists>t\<in>set (tabletManager migratingMaster). covers t 2 0 9)"
    by (simp add: migratingMaster_def covers_def)
  have b: "getTablet (tabletManager migratingMaster) 1 0 9 \<noteq> None" "7 = serverId migratingMaster"
    by (simp_all add: migratingMaster_def getTablet_def sameRange_def)
  have "migrateTablet 65536 allLive STATUS_OK [objectV2] [] migratingMaster 2 0 9 3 =
     (STATUS_UNKNOWN_TABLET, migratingMaster, [])"
    using migrateTablet_rejects[of migratingMaster 2 0 9 65536 allLive STATUS_OK "[objectV2]" "[]" 3]
      a by (elim conjE) simp
  moreover have "migrateTablet 65536 allLive STATUS_OK [objectV2] [] migratingMaster 1 0 9 7 =
     (STATUS_REQUEST_FORMAT_ERROR, migratingMaster, [])"
    using migrateTablet_rejects[of migratingMaster 1 0 9 65536 allLive STATUS_OK "[objectV2]" "[]" 7]
      b by (elim conjE) simp
  ultimately show ?thesis by simp
qed

section \<open>The Recover RPC handler: proofs\<close>





lemma recover_returns:
  "\<exists>r. recover grd sched (mkReplicas ws) = Some r \<and> r \<noteq> Inl AssertionFailed"
proof -
  obtain s' where s':
    "eventLoop grd sched (startInitialTasks [0, 1, 2, 3] 0 (initRecovery (mkReplicas ws))) = Some s'"
    "recoveryInv grd s'" "\<forall>r\<in>set (replicas s'). state r = OK \<or> state r = FAILED"
    using recovery_outcome[of grd sched ws] by blast
  have u: "okUniform (replicas s')" using s'(2) by (simp add: recoveryInv_def coreInv_def)
  show ?thesis
    using s'(1) detect_drained[OF s'(3) u] by (auto simp: recover_def)
qed


lemma recoverEnd_returns:
  "recoverEnd tablets ws grd sched cancel m1 \<noteq> NeverReturns \<and>
   recoverEnd tablets ws grd sched cancel m1 \<noteq> Aborted m1"
proof -
  obtain r where "recover grd sched (mkReplicas ws) = Some r" "r \<noteq> Inl AssertionFailed"
    using recover_returns by blast
  then show ?thesis
    by (auto simp: recoverEnd_def Let_def split: option.splits sum.splits RecoveryError.splits
        if_splits)
qed






section \<open>Recovery orchestration: proofs\<close>

lemma replicaBefore_trans:
  "replicaBefore a b \<Longrightarrow> replicaBefore b c \<Longrightarrow> replicaBefore a c"
  unfolding replicaBefore_def by (auto intro: order_less_trans)

lemma replicaBefore_total:
  "\<not> replicaBefore x y \<Longrightarrow> \<not> (fst x = fst y \<and> server_id (snd x) = server_id (snd y)) \<Longrightarrow>
   replicaBefore y x"
  unfolding replicaBefore_def by (auto simp: not_less_iff_gr_or_eq)

lemma set_insertReplica: "set (insertReplica x m) \<subseteq> insert x (set m)"
  by (induction m) auto

lemma insertReplica_sorted:
  "sorted_wrt replicaBefore m \<Longrightarrow> sorted_wrt replicaBefore (insertReplica x m)"
proof (induction m)
  case Nil
  then show ?case by simp
next
  case (Cons y ys)
  have ys: "sorted_wrt replicaBefore ys" "\<forall>z\<in>set ys. replicaBefore y z"
    using Cons.prems by simp_all
  show ?case
  proof (cases "replicaBefore x y")
    case True
    then have "\<forall>z\<in>set ys. replicaBefore x z" using ys(2) replicaBefore_trans by blast
    then show ?thesis using True Cons.prems by simp
  next
    case False
    show ?thesis
    proof (cases "fst x = fst y \<and> server_id (snd x) = server_id (snd y)")
      case True
      then show ?thesis using False Cons.prems by simp
    next
      case ne: False
      have yx: "replicaBefore y x" using replicaBefore_total[OF False ne] .
      have "\<forall>z\<in>set (insertReplica x ys). replicaBefore y z"
        using set_insertReplica[of x ys] ys(2) yx by auto
      moreover have "insertReplica x (y # ys) = y # insertReplica x ys"
        using False ne by auto
      ultimately show ?thesis using Cons.IH[OF ys(1)] by simp
    qed
  qed
qed

lemma insertReplicas_sorted:
  "sorted_wrt replicaBefore m \<Longrightarrow>
   sorted_wrt replicaBefore (foldl (\<lambda>m seg. insertReplica (seg, b) m) m segs)"
  by (induction segs arbitrary: m) (simp_all add: insertReplica_sorted)

lemma buildSegmentIdToBackups_sorted:
  "sorted_wrt replicaBefore (buildSegmentIdToBackups masterId backupHosts startReadingData)"
proof -
  have "sorted_wrt replicaBefore m \<Longrightarrow>
        sorted_wrt replicaBefore
          (foldl (\<lambda>m b. foldl (\<lambda>m seg. insertReplica (seg, b) m) m (startReadingData b masterId))
             m backupHosts)" for m
    by (induction backupHosts arbitrary: m) (simp_all add: insertReplicas_sorted)
  then show ?thesis by (simp add: buildSegmentIdToBackups_def)
qed

text \<open>
  Claim C7. With backup 1 holding the segments 88 and 89, backup 2 holding segment 88
  and backup 3 holding nothing for the crashed master 99, the map from segment ids to
  backups iterates as (88, backup 1), (88, backup 2), (89, backup 1), and the list for
  dispatch has exactly these three entries in this order, each with the BACKUP role.
  For any backups and answers the map iterates with the segment ids ascending and,
  within a segment id, the backup ids ascending, and the list for dispatch follows the
  map, all entries with the BACKUP role.
\<close>

theorem replica_map_and_dispatch_list:
  "buildSegmentIdToBackups 99 [backup1, backup2, backup3] testStorage =
     [(88, backup1), (88, backup2), (89, backup1)] \<and>
   createBackupList (buildSegmentIdToBackups 99 [backup1, backup2, backup3] testStorage) =
     [\<lparr>server_type = BACKUP, server_id = 1, service_locator = ''mock:host=backup1'',
       segment_id = Some 88\<rparr>,
      \<lparr>server_type = BACKUP, server_id = 2, service_locator = ''mock:host=backup2'',
       segment_id = Some 88\<rparr>,
      \<lparr>server_type = BACKUP, server_id = 1, service_locator = ''mock:host=backup1'',
       segment_id = Some 89\<rparr>] \<and>
   length (createBackupList
             (buildSegmentIdToBackups 99 [backup1, backup2, backup3] testStorage)) = 3 \<and>
   sorted_wrt replicaBefore (buildSegmentIdToBackups masterId backupHosts startReadingData) \<and>
   map segment_id (createBackupList m) = map (\<lambda>p. Some (fst p)) m \<and>
   map server_id (createBackupList m) = map (\<lambda>p. server_id (snd p)) m \<and>
   list_all (\<lambda>e. server_type e = BACKUP) (createBackupList m)"
proof -
  have b: "buildSegmentIdToBackups 99 [backup1, backup2, backup3] testStorage =
     [(88, backup1), (88, backup2), (89, backup1)]"
    by (simp add: buildSegmentIdToBackups_def testStorage_def backup1_def backup2_def
        backup3_def replicaBefore_def)
  have c: "createBackupList [(88, backup1), (88, backup2), (89, backup1)] =
     [\<lparr>server_type = BACKUP, server_id = 1, service_locator = ''mock:host=backup1'',
       segment_id = Some 88\<rparr>,
      \<lparr>server_type = BACKUP, server_id = 2, service_locator = ''mock:host=backup2'',
       segment_id = Some 88\<rparr>,
      \<lparr>server_type = BACKUP, server_id = 1, service_locator = ''mock:host=backup1'',
       segment_id = Some 89\<rparr>]"
    by (simp add: createBackupList_def backup1_def backup2_def)
  have g: "map segment_id (createBackupList m) = map (\<lambda>p. Some (fst p)) m"
    "map server_id (createBackupList m) = map (\<lambda>p. server_id (snd p)) m"
    "list_all (\<lambda>e. server_type e = BACKUP) (createBackupList m)"
    by (simp_all add: createBackupList_def list_all_iff comp_def)
  show ?thesis
    using buildSegmentIdToBackups_sorted[of masterId backupHosts startReadingData] g
    by (simp add: b c)
qed

lemma dispatch_short:
  "length ms < length ps \<Longrightarrow>
   dispatch ms ps hosts =
     map (\<lambda>x. TryingPartition (service_locator (fst x)) (length (snd (snd x))) hosts) (zip ms ps)
     @ [Busted]"
  by (induction ms ps hosts rule: dispatch.induct) simp_all

text \<open>
  Claim C8. When fewer recovery masters are available than there are partitions, the
  dispatcher has each available master try one partition, in order, attempts no
  partition beyond those, and ends with the diagnostic that declares the system
  unrecovered.
\<close>

theorem not_enough_masters:
  assumes "length masterHosts < length ps"
  shows "dispatch masterHosts ps hosts =
     map (\<lambda>x. TryingPartition (service_locator (fst x)) (length (snd (snd x))) hosts)
       (zip masterHosts ps) @ [Busted] \<and>
     length (filter (\<lambda>e. e \<noteq> Busted) (dispatch masterHosts ps hosts)) = length masterHosts \<and>
     last (dispatch masterHosts ps hosts) = Busted"
proof -
  have d: "dispatch masterHosts ps hosts =
     map (\<lambda>x. TryingPartition (service_locator (fst x)) (length (snd (snd x))) hosts)
       (zip masterHosts ps) @ [Busted]"
    by (rule dispatch_short[OF assms])
  have "filter (\<lambda>e. e \<noteq> Busted)
          (map (\<lambda>x. TryingPartition (service_locator (fst x)) (length (snd (snd x))) hosts)
             (zip masterHosts ps)) =
        map (\<lambda>x. TryingPartition (service_locator (fst x)) (length (snd (snd x))) hosts)
             (zip masterHosts ps)"
    by (simp add: filter_map comp_def)
  then have "length (filter (\<lambda>e. e \<noteq> Busted) (dispatch masterHosts ps hosts)) =
     length (zip masterHosts ps)"
    unfolding d by simp
  then show ?thesis using d assms by simp
qed

theorem not_enough_masters_witness:
  "start 99 threePartitions [master1, master2] [backup1, backup2, backup3] testStorage =
     [TryingPartition ''mock:host=master1'' 1 3, TryingPartition ''mock:host=master2'' 1 3,
      Busted]"
proof -
  have p: "partitionsOf threePartitions =
     [(0, [\<lparr>table_id = 123, start_object_id = 0, end_object_id = 9, user_data = 0\<rparr>]),
      (1, [\<lparr>table_id = 123, start_object_id = 10, end_object_id = 19, user_data = 1\<rparr>]),
      (2, [\<lparr>table_id = 123, start_object_id = 20, end_object_id = 29, user_data = 2\<rparr>])]"
    by (simp add: partitionsOf_def threePartitions_def)
  have h: "length [master1, master2] < length (partitionsOf threePartitions)"
    by (simp add: p)
  have n: "length (createBackupList
             (buildSegmentIdToBackups 99 [backup1, backup2, backup3] testStorage)) = 3"
    by (simp add: buildSegmentIdToBackups_def testStorage_def backup1_def backup2_def
        backup3_def replicaBefore_def createBackupList_def)
  have "dispatch [master1, master2] (partitionsOf threePartitions) 3 =
     map (\<lambda>x. TryingPartition (service_locator (fst x)) (length (snd (snd x))) 3)
       (zip [master1, master2] (partitionsOf threePartitions)) @ [Busted]"
    using not_enough_masters[OF h, of 3] by simp
  then show ?thesis
    by (simp add: start_def n p master1_def master2_def)
qed

end
